theory Spec2Isabelle
  imports Main "HOL-Library.Multiset"
begin

section \<open>The instrumented sorting engine (utils/sortingAlgorithms.js)\<close>

text \<open>
  The module exports the class \<open>SortingAlgorithms\<close> with four executors
  (\<open>bubbleSort\<close>, \<open>quickSort\<close>, \<open>selectionSort\<close>, \<open>insertionSort\<close>) and the
  dispatcher \<open>sort\<close>. JavaScript arrays are objects with identity, and the executors
  mutate arrays in place, so the embedding works on an explicit store: an array value is
  an address, the store maps addresses to contents, and the spread \<open>[...a]\<close> allocates
  a new array. The arrays hold integers, as the session model stores them
  (\<open>DataTypes.ARRAY(DataTypes.INTEGER)\<close>); the code only copies and compares the
  elements, so \<open>int\<close> is exact.
\<close>

subsection \<open>Store, steps and results\<close>

type_synonym addr = nat

record heap =
  cells :: "addr \<Rightarrow> int list"
  fresh :: addr

text \<open>
  One entry of \<open>steps\<close>: \<open>{ array, swapIndices, comparisonCount }\<close>. \<open>array\<close> is a
  reference to the snapshot, \<open>swapIndices\<close> is \<open>null\<close> (\<open>None\<close>) or a pair of indices.
\<close>

record step =
  array :: addr
  swapIndices :: "(int \<times> int) option"
  comparisonCount :: nat

text \<open>
  The state an executor threads through its loops: the store, and the executor's
  local variables \<open>steps\<close> (here \<open>trace\<close>) and \<open>comparisonCount\<close> (here \<open>count\<close>).
  The local constant \<open>sortedArray\<close> is a reference; it is a parameter of every loop.
\<close>

record state = heap +
  trace :: "step list"
  count :: nat

text \<open>The object every executor returns.\<close>

record sortResult =
  steps :: "step list"
  sortedArray :: addr
  executionTime :: int
  algorithmType :: string
  totalComparisons :: nat

text \<open>The two readings of \<open>Date.now()\<close> an executor takes.\<close>

record clock =
  startTime :: int
  finishTime :: int

subsection \<open>Array operations\<close>

text \<open>\<open>[...a]\<close>: a new array with the contents of \<open>a\<close>.\<close>

definition copyArray :: "addr \<Rightarrow> 'a heap_scheme \<Rightarrow> addr \<times> 'a heap_scheme" where
  "copyArray a h =
     (fresh h, h\<lparr>cells := (cells h)(fresh h := cells h a), fresh := Suc (fresh h)\<rparr>)"

text \<open>
  \<open>a.length\<close>, \<open>a[i]\<close> and \<open>a[i] = v\<close>. The executors read and write inside the
  array only: every access is under a loop guard that bounds its index (\<open>j + 1\<close> below
  \<open>length - i\<close> in \<open>bubbleSort\<close>, \<open>0 \<le> j < i\<close> in \<open>insertionSort\<close>,
  \<open>low \<le> i + 1 \<le> j \<le> high\<close> in \<open>partition\<close>), so what JavaScript does outside the
  array (a read gives \<open>undefined\<close>, a write extends) never happens.
\<close>

definition len :: "'a heap_scheme \<Rightarrow> addr \<Rightarrow> int" where
  "len s a = int (length (cells s a))"

definition get :: "'a heap_scheme \<Rightarrow> addr \<Rightarrow> int \<Rightarrow> int" where
  "get s a i = cells s a ! nat i"

definition put :: "addr \<Rightarrow> int \<Rightarrow> int \<Rightarrow> state \<Rightarrow> state" where
  "put a i v s = s\<lparr>cells := (cells s)(a := (cells s a)[nat i := v])\<rparr>"

text \<open>\<open>[a[i], a[j]] = [a[j], a[i]]\<close>: the right-hand side is read first.\<close>

definition swapElems :: "addr \<Rightarrow> int \<Rightarrow> int \<Rightarrow> state \<Rightarrow> state" where
  "swapElems a i j s = put a j (get s a i) (put a i (get s a j) s)"

text \<open>\<open>comparisonCount++\<close>\<close>

definition countComparison :: "state \<Rightarrow> state" where
  "countComparison s = s\<lparr>count := count s + 1\<rparr>"

text \<open>\<open>steps.push({ array: [...a], swapIndices: idx, comparisonCount })\<close>\<close>

definition pushStep :: "addr \<Rightarrow> (int \<times> int) option \<Rightarrow> state \<Rightarrow> state" where
  "pushStep a idx s =
     (case copyArray a s of (p, s') \<Rightarrow>
        s'\<lparr>trace := trace s' @ [\<lparr>array = p, swapIndices = idx, comparisonCount = count s'\<rparr>]\<rparr>)"

definition initState :: "heap \<Rightarrow> state" where
  "initState h = heap.extend h \<lparr>trace = [], count = 0\<rparr>"

definition heapOf :: "state \<Rightarrow> heap" where
  "heapOf s = heap.truncate s"

lemma len_countComparison [simp]: "len (countComparison s) a = len s a"
  by (simp add: len_def countComparison_def)

lemma len_put [simp]: "len (put a i v s) b = len s b"
  by (simp add: len_def put_def)

lemma len_swapElems [simp]: "len (swapElems a i j s) b = len s b"
  by (simp add: swapElems_def)

lemma len_pushStep [simp]: "len (pushStep a idx s) a = len s a"
  by (simp add: len_def pushStep_def copyArray_def)

subsection \<open>bubbleSort\<close>

text \<open>
  The inner \<open>for (let j = 0; j < sortedArray.length - 1 - i; j++)\<close> with the flag
  \<open>swapped\<close>, and the outer \<open>for (let i = 0; i < sortedArray.length - 1; i++)\<close> with its
  \<open>if (!swapped) break\<close>.
\<close>

function bubble_inner :: "addr \<Rightarrow> int \<Rightarrow> int \<Rightarrow> bool \<times> state \<Rightarrow> bool \<times> state" where
  "bubble_inner sa i j (swapped, s) =
     (if j < len s sa - 1 - i then
        (let s1 = countComparison s in
         if get s1 sa j > get s1 sa (j + 1) then
           bubble_inner sa i (j + 1)
             (True, pushStep sa (Some (j, j + 1)) (swapElems sa j (j + 1) s1))
         else bubble_inner sa i (j + 1) (swapped, s1))
      else (swapped, s))"
  by pat_completeness auto
termination
  by (relation "measure (\<lambda>(sa, i, j, (b, s)). nat (len s sa - 1 - i - j))") auto

declare bubble_inner.simps [simp del]

lemma len_bubble_inner: "len (snd (bubble_inner sa i j bs)) sa = len (snd bs) sa"
proof (induction sa i j bs rule: bubble_inner.induct)
  case (1 sa i j swapped s)
  then show ?case
    by (subst bubble_inner.simps) (simp add: Let_def)
qed

function bubble_outer :: "addr \<Rightarrow> int \<Rightarrow> state \<Rightarrow> state" where
  "bubble_outer sa i s =
     (if i < len s sa - 1 then
        (case bubble_inner sa i 0 (False, s) of
           (swapped, s1) \<Rightarrow> if \<not> swapped then s1 else bubble_outer sa (i + 1) s1)
      else s)"
  by pat_completeness auto
termination
proof (relation "measure (\<lambda>(sa, i, s). nat (len s sa - i))", goal_cases)
  case 1
  show ?case by simp
next
  case (2 sa i s swapped s1)
  then have "snd (bubble_inner sa i 0 (False, s)) = s1"
    by (metis snd_conv)
  then have "len s1 sa = len s sa"
    using len_bubble_inner [of sa i 0 "(False, s)"] by simp
  with 2 show ?case
    by simp
qed

declare bubble_outer.simps [simp del]

definition bubbleSort :: "clock \<Rightarrow> heap \<Rightarrow> addr \<Rightarrow> heap \<times> sortResult" where
  "bubbleSort clk h arr =
     (case copyArray arr (initState h) of
        (sa, s0) \<Rightarrow>
          let s1 = pushStep sa None s0;
              s2 = bubble_outer sa 0 s1
          in (heapOf s2,
              \<lparr>steps = trace s2, sortedArray = sa,
               executionTime = finishTime clk - startTime clk,
               algorithmType = ''bubble'', totalComparisons = count s2\<rparr>))"

subsection \<open>quickSort\<close>

text \<open>
  \<open>partition(array, low, high)\<close>: the loop \<open>for (let j = low; j < high; j++)\<close> carries
  \<open>i\<close>; \<open>steps\<close> and \<open>comparisonCount\<close> are the enclosing executor's, \<open>array\<close> is
  the reference the helper was called with.
\<close>

function partition_loop ::
  "addr \<Rightarrow> int \<Rightarrow> int \<Rightarrow> int \<Rightarrow> int \<times> state \<Rightarrow> int \<times> state" where
  "partition_loop arr pivot high j (i, s) =
     (if j < high then
        (let s1 = countComparison s in
         if get s1 arr j < pivot then
           (let i1 = i + 1 in
            partition_loop arr pivot high (j + 1)
              (i1, if i1 \<noteq> j then pushStep arr (Some (i1, j)) (swapElems arr i1 j s1)
                   else s1))
         else partition_loop arr pivot high (j + 1) (i, s1))
      else (i, s))"
  by pat_completeness auto
termination
  by (relation "measure (\<lambda>(arr, pivot, high, j, is). nat (high - j))") auto

declare partition_loop.simps [simp del]

definition partition_impl :: "addr \<Rightarrow> int \<Rightarrow> int \<Rightarrow> state \<Rightarrow> int \<times> state" where
  "partition_impl arr low high s =
     (let pivot = get s arr high in
      case partition_loop arr pivot high low (low - 1, s) of
        (i, s1) \<Rightarrow>
          (i + 1,
           if i + 1 \<noteq> high
           then pushStep arr (Some (i + 1, high)) (swapElems arr (i + 1) high s1)
           else s1))"

lemma partition_loop_bounds:
  "i < j \<Longrightarrow> j \<le> high \<Longrightarrow>
   i \<le> fst (partition_loop arr pivot high j (i, s)) \<and>
   fst (partition_loop arr pivot high j (i, s)) < high"
proof (induction arr pivot high j "(i, s)" arbitrary: i s rule: partition_loop.induct)
  case (1 arr pivot high j i s)
  show ?case
  proof (cases "j < high")
    case True
    with 1 show ?thesis
      by (subst (1 2) partition_loop.simps) (fastforce simp: Let_def)
  next
    case False
    with 1 show ?thesis
      by (subst (1 2) partition_loop.simps) simp
  qed
qed

lemma fst_partition_impl:
  "fst (partition_impl arr low high s) =
   fst (partition_loop arr (get s arr high) high low (low - 1, s)) + 1"
  by (simp add: partition_impl_def Let_def split: prod.splits)

lemma partition_impl_bounds:
  "low \<le> high \<Longrightarrow>
   low \<le> fst (partition_impl arr low high s) \<and> fst (partition_impl arr low high s) \<le> high"
  using partition_loop_bounds [of "low - 1" low high arr "get s arr high" s]
  by (simp add: fst_partition_impl)

function quickSortHelper :: "addr \<Rightarrow> int \<Rightarrow> int \<Rightarrow> state \<Rightarrow> state" where
  "quickSortHelper arr low high s =
     (if low < high then
        (case partition_impl arr low high s of
           (pivotIndex, s1) \<Rightarrow>
             quickSortHelper arr (pivotIndex + 1) high
               (quickSortHelper arr low (pivotIndex - 1) s1))
      else s)"
  by pat_completeness auto
termination
proof (relation "measure (\<lambda>(arr, low, high, s). nat (high - low))", goal_cases)
  case 1
  show ?case by simp
next
  case (2 arr low high s pivotIndex s1)
  then have "fst (partition_impl arr low high s) = pivotIndex"
    by (metis fst_conv)
  with 2 partition_impl_bounds [of low high arr s] show ?case
    by simp
next
  case (3 arr low high s pivotIndex s1)
  then have "fst (partition_impl arr low high s) = pivotIndex"
    by (metis fst_conv)
  with 3 partition_impl_bounds [of low high arr s] show ?case
    by simp
qed

declare quickSortHelper.simps [simp del]

definition quickSort :: "clock \<Rightarrow> heap \<Rightarrow> addr \<Rightarrow> heap \<times> sortResult" where
  "quickSort clk h arr =
     (case copyArray arr (initState h) of
        (sa, s0) \<Rightarrow>
          let s1 = pushStep sa None s0;
              s2 = quickSortHelper sa 0 (len s1 sa - 1) s1
          in (heapOf s2,
              \<lparr>steps = trace s2, sortedArray = sa,
               executionTime = finishTime clk - startTime clk,
               algorithmType = ''quick'', totalComparisons = count s2\<rparr>))"

subsection \<open>selectionSort\<close>

text \<open>
  The scan \<open>for (let j = i + 1; j < sortedArray.length; j++)\<close> carries \<open>minIndex\<close>;
  \<open>selection_pass\<close> is the body of the outer loop
  \<open>for (let i = 0; i < sortedArray.length - 1; i++)\<close>: the scan, then the swap and its
  step when \<open>minIndex !== i\<close>.
\<close>

function selection_scan :: "addr \<Rightarrow> int \<Rightarrow> int \<times> state \<Rightarrow> int \<times> state" where
  "selection_scan sa j (minIndex, s) =
     (if j < len s sa then
        (let s1 = countComparison s in
         selection_scan sa (j + 1)
           (if get s1 sa j < get s1 sa minIndex then j else minIndex, s1))
      else (minIndex, s))"
  by pat_completeness auto
termination
  by (relation "measure (\<lambda>(sa, j, (m, s)). nat (len s sa - j))") auto

declare selection_scan.simps [simp del]

lemma selection_scan_state:
  "snd (selection_scan sa j (m, s)) = s\<lparr>count := count s + nat (len s sa - j)\<rparr>"
proof (induction sa j "(m, s)" arbitrary: m s rule: selection_scan.induct)
  case (1 sa j minIndex s)
  show ?case
  proof (cases "j < len s sa")
    case True
    then have "Suc (count s + nat (len s sa - (j + 1))) = count s + nat (len s sa - j)"
      by simp
    with True 1 show ?thesis
      by (subst selection_scan.simps) (simp add: Let_def countComparison_def len_def)
  next
    case False
    then show ?thesis
      by (subst selection_scan.simps) simp
  qed
qed

definition selection_pass :: "addr \<Rightarrow> int \<Rightarrow> state \<Rightarrow> state" where
  "selection_pass sa i s =
     (case selection_scan sa (i + 1) (i, s) of
        (minIndex, s1) \<Rightarrow>
          if minIndex \<noteq> i
          then pushStep sa (Some (i, minIndex)) (swapElems sa i minIndex s1)
          else s1)"

lemma len_selection_pass: "len (selection_pass sa i s) sa = len s sa"
proof -
  obtain m s1 where eq: "selection_scan sa (i + 1) (i, s) = (m, s1)"
    by (cases "selection_scan sa (i + 1) (i, s)")
  then have "s1 = s\<lparr>count := count s + nat (len s sa - (i + 1))\<rparr>"
    using selection_scan_state [of sa "i + 1" i s] by simp
  then have "len s1 sa = len s sa"
    by (simp add: len_def)
  with eq show ?thesis
    by (simp add: selection_pass_def)
qed

function selection_outer :: "addr \<Rightarrow> int \<Rightarrow> state \<Rightarrow> state" where
  "selection_outer sa i s =
     (if i < len s sa - 1 then selection_outer sa (i + 1) (selection_pass sa i s) else s)"
  by pat_completeness auto
termination
  by (relation "measure (\<lambda>(sa, i, s). nat (len s sa - i))")
    (auto simp: len_selection_pass)

declare selection_outer.simps [simp del]

definition selectionSort :: "clock \<Rightarrow> heap \<Rightarrow> addr \<Rightarrow> heap \<times> sortResult" where
  "selectionSort clk h arr =
     (case copyArray arr (initState h) of
        (sa, s0) \<Rightarrow>
          let s1 = pushStep sa None s0;
              s2 = selection_outer sa 0 s1
          in (heapOf s2,
              \<lparr>steps = trace s2, sortedArray = sa,
               executionTime = finishTime clk - startTime clk,
               algorithmType = ''selection'', totalComparisons = count s2\<rparr>))"

subsection \<open>insertionSort\<close>

text \<open>
  The shift loop \<open>while (j >= 0)\<close> with its \<open>break\<close>; one pass of the outer
  \<open>for (let i = 1; i < sortedArray.length; i++)\<close> takes the key, shifts, writes the key
  at \<open>j + 1\<close> and records the placement when \<open>j + 1 !== i\<close>.
\<close>

function insertion_shift :: "addr \<Rightarrow> int \<Rightarrow> int \<times> state \<Rightarrow> int \<times> state" where
  "insertion_shift sa key (j, s) =
     (if j \<ge> 0 then
        (let s1 = countComparison s in
         if get s1 sa j > key then
           insertion_shift sa key
             (j - 1, pushStep sa (Some (j, j + 1)) (put sa (j + 1) (get s1 sa j) s1))
         else (j, s1))
      else (j, s))"
  by pat_completeness auto
termination
  by (relation "measure (\<lambda>(sa, key, (j, s)). nat (j + 1))") auto

declare insertion_shift.simps [simp del]

definition insertion_pass :: "addr \<Rightarrow> int \<Rightarrow> state \<Rightarrow> state" where
  "insertion_pass sa i s =
     (let key = get s sa i in
      case insertion_shift sa key (i - 1, s) of
        (j, s1) \<Rightarrow>
          let s2 = put sa (j + 1) key s1
          in if j + 1 \<noteq> i then pushStep sa (Some (j + 1, i)) s2 else s2)"

lemma len_insertion_shift:
  "len (snd (insertion_shift sa key js)) sa = len (snd js) sa"
proof (induction sa key js rule: insertion_shift.induct)
  case (1 sa key j s)
  then show ?case
    by (subst insertion_shift.simps) (simp add: Let_def)
qed

lemma len_insertion_pass: "len (insertion_pass sa i s) sa = len s sa"
  using len_insertion_shift [of sa "get s sa i" "(i - 1, s)"]
  by (simp add: insertion_pass_def Let_def case_prod_beta)

function insertion_outer :: "addr \<Rightarrow> int \<Rightarrow> state \<Rightarrow> state" where
  "insertion_outer sa i s =
     (if i < len s sa then insertion_outer sa (i + 1) (insertion_pass sa i s) else s)"
  by pat_completeness auto
termination
  by (relation "measure (\<lambda>(sa, i, s). nat (len s sa - i))")
    (auto simp: len_insertion_pass)

declare insertion_outer.simps [simp del]

definition insertionSort :: "clock \<Rightarrow> heap \<Rightarrow> addr \<Rightarrow> heap \<times> sortResult" where
  "insertionSort clk h arr =
     (case copyArray arr (initState h) of
        (sa, s0) \<Rightarrow>
          let s1 = pushStep sa None s0;
              s2 = insertion_outer sa 1 s1
          in (heapOf s2,
              \<lparr>steps = trace s2, sortedArray = sa,
               executionTime = finishTime clk - startTime clk,
               algorithmType = ''insertion'', totalComparisons = count s2\<rparr>))"

subsection \<open>The dispatcher\<close>

text \<open>
  The first argument of \<open>sort\<close> is any JavaScript value: a reference to an array, or
  something for which \<open>Array.isArray\<close> is false.
\<close>

datatype jsvalue = ArrayRef addr | NotAnArray

text \<open>
  The four \<open>throw new Error(...)\<close> of \<open>sort\<close>, by message: \<open>'Input must be an array'\<close>,
  \<open>'Array cannot be empty'\<close>, \<open>'Array size exceeds maximum limit of ...'\<close> and
  \<open>'Unsupported sorting algorithm: ${algorithm}'\<close>.
\<close>

datatype error =
    InputMustBeArray
  | ArrayCannotBeEmpty
  | ArraySizeExceedsLimit
  | UnsupportedAlgorithm string

text \<open>Calls of \<open>logger.info\<close> and \<open>logger.error\<close>, by message (the metadata is left out).\<close>

datatype logEntry = LogInfo string | LogError string

text \<open>
  The process environment: \<open>MAX_ARRAY_SIZE\<close> is the value of
  \<open>parseInt(process.env.MAX_ARRAY_SIZE)\<close>, \<open>None\<close> when that is \<open>NaN\<close> (the variable is
  unset or does not start with a number). \<open>parseInt(...) || 1000\<close> falls back to 1000
  on \<open>NaN\<close> and on 0.
\<close>

record env =
  MAX_ARRAY_SIZE :: "int option"

definition maxArraySize :: "env \<Rightarrow> int" where
  "maxArraySize e =
     (case MAX_ARRAY_SIZE e of None \<Rightarrow> 1000 | Some n \<Rightarrow> if n = 0 then 1000 else n)"

text \<open>
  \<open>String.prototype.toLowerCase\<close> on strings of code units below 256: the letters
  \<open>A\<close>-\<open>Z\<close> and the Latin-1 capitals U+00C0-U+00DE (without the sign U+00D7) move up
  by 32, every other unit stays.
\<close>

definition lowerChar :: "char \<Rightarrow> char" where
  "lowerChar c =
     (let n = (of_char c :: nat)
      in if (65 \<le> n \<and> n \<le> 90) \<or> (192 \<le> n \<and> n \<le> 222 \<and> n \<noteq> 215)
         then char_of (n + 32) else c)"

definition toLowerCase :: "string \<Rightarrow> string" where
  "toLowerCase str = map lowerChar str"

text \<open>\<open>array.every((val, i) => i === 0 || array[i - 1] <= val)\<close>\<close>

definition isAlreadySorted :: "int list \<Rightarrow> bool" where
  "isAlreadySorted xs = list_all (\<lambda>i. i = 0 \<or> xs ! (i - 1) \<le> xs ! i) [0..<length xs]"

text \<open>
  What a call of \<open>sort\<close> leaves behind: the log lines written, the store, and either
  the error thrown or the object returned.
\<close>

record outcome =
  logged :: "logEntry list"
  heapAfter :: heap
  returned :: "error + sortResult"

text \<open>The \<open>catch\<close> block logs and rethrows; the normal exit logs and returns.\<close>

definition thrown :: "logEntry list \<Rightarrow> heap \<Rightarrow> error \<Rightarrow> outcome" where
  "thrown log h e =
     \<lparr>logged = log @ [LogError ''Error in sorting operation''], heapAfter = h,
      returned = Inl e\<rparr>"

definition completed :: "logEntry list \<Rightarrow> heap \<times> sortResult \<Rightarrow> outcome" where
  "completed log hr =
     \<lparr>logged = log @ [LogInfo ''Sort operation completed''], heapAfter = fst hr,
      returned = Inr (snd hr)\<rparr>"

text \<open>
  \<open>sort(array, algorithm)\<close>. A caller that omits \<open>algorithm\<close> passes \<open>'bubble'\<close>.
  In the already-sorted branch the object literal is built in place: first the snapshot
  of the only step, then \<open>sortedArray\<close>, both \<open>[...array]\<close>.
\<close>

definition sort_impl :: "env \<Rightarrow> clock \<Rightarrow> heap \<Rightarrow> jsvalue \<Rightarrow> string \<Rightarrow> outcome" where
  "sort_impl e clk h array_arg algorithm =
     (case array_arg of
        NotAnArray \<Rightarrow> thrown [] h InputMustBeArray
      | ArrayRef a \<Rightarrow>
          if length (cells h a) = 0 then thrown [] h ArrayCannotBeEmpty
          else if len h a > maxArraySize e then thrown [] h ArraySizeExceedsLimit
          else if isAlreadySorted (cells h a) then
            (case copyArray a h of
               (p, h1) \<Rightarrow>
                 (case copyArray a h1 of
                    (q, h2) \<Rightarrow>
                      \<lparr>logged = [LogInfo ''Array is already sorted''], heapAfter = h2,
                       returned = Inr
                         \<lparr>steps = [\<lparr>array = p, swapIndices = None, comparisonCount = 0\<rparr>],
                          sortedArray = q, executionTime = 0,
                          algorithmType = algorithm, totalComparisons = 0\<rparr>\<rparr>))
          else
            (let log = [LogInfo ''Starting sort operation''];
                 name = toLowerCase algorithm
             in if name = ''bubble'' then completed log (bubbleSort clk h a)
                else if name = ''quick'' then completed log (quickSort clk h a)
                else if name = ''selection'' then completed log (selectionSort clk h a)
                else if name = ''insertion'' then completed log (insertionSort clk h a)
                else thrown log h (UnsupportedAlgorithm algorithm)))"

text \<open>
  A valid input: a reference to an allocated array that is not empty and not longer
  than the configured maximum.
\<close>

definition validInput :: "env \<Rightarrow> heap \<Rightarrow> addr \<Rightarrow> bool" where
  "validInput e h a \<longleftrightarrow> a < fresh h \<and> cells h a \<noteq> [] \<and> len h a \<le> maxArraySize e"

subsection \<open>What the array operations do to the state\<close>

lemma countComparison_simps [simp]:
  "cells (countComparison s) = cells s"
  "fresh (countComparison s) = fresh s"
  "trace (countComparison s) = trace s"
  "count (countComparison s) = Suc (count s)"
  "get (countComparison s) a i = get s a i"
  by (simp_all add: countComparison_def get_def)

lemma put_simps [simp]:
  "cells (put a i v s) = (cells s)(a := (cells s a)[nat i := v])"
  "fresh (put a i v s) = fresh s"
  "trace (put a i v s) = trace s"
  "count (put a i v s) = count s"
  by (simp_all add: put_def)

lemma swapElems_simps [simp]:
  "cells (swapElems a i j s) =
     (cells s)(a := (cells s a)[nat i := cells s a ! nat j, nat j := cells s a ! nat i])"
  "fresh (swapElems a i j s) = fresh s"
  "trace (swapElems a i j s) = trace s"
  "count (swapElems a i j s) = count s"
  by (simp_all add: swapElems_def get_def)

lemma cells_pushStep: "cells (pushStep a idx s) = (cells s)(fresh s := cells s a)"
  by (simp add: pushStep_def copyArray_def)

lemma pushStep_simps [simp]:
  "fresh (pushStep a idx s) = Suc (fresh s)"
  "trace (pushStep a idx s) =
     trace s @ [\<lparr>array = fresh s, swapIndices = idx, comparisonCount = count s\<rparr>]"
  "count (pushStep a idx s) = count s"
  by (simp_all add: pushStep_def copyArray_def)

lemma cells_pushStep_same [simp]: "cells (pushStep a idx s) a = cells s a"
  by (simp add: cells_pushStep)

lemma cells_pushStep_fresh [simp]: "cells (pushStep a idx s) (fresh s) = cells s a"
  by (simp add: cells_pushStep)

lemma cells_pushStep_other [simp]:
  "q \<noteq> fresh s \<Longrightarrow> cells (pushStep a idx s) q = cells s q"
  by (simp add: cells_pushStep)

lemma initState_simps [simp]:
  "cells (initState h) = cells h"
  "fresh (initState h) = fresh h"
  "trace (initState h) = []"
  "count (initState h) = 0"
  by (simp_all add: initState_def heap.defs)

lemma heapOf_simps [simp]:
  "cells (heapOf s) = cells s"
  "fresh (heapOf s) = fresh s"
  by (simp_all add: heapOf_def heap.defs)

lemma copyArray_simps [simp]:
  "fst (copyArray a h) = fresh h"
  "cells (snd (copyArray a h)) = (cells h)(fresh h := cells h a)"
  "fresh (snd (copyArray a h)) = Suc (fresh h)"
  by (simp_all add: copyArray_def)

lemma copyArray_state_simps [simp]:
  "trace (snd (copyArray a s)) = trace s"
  "count (snd (copyArray a s)) = count s"
  by (simp_all add: copyArray_def)

subsection \<open>The invariant of the trace\<close>

definition indicesOk :: "int \<Rightarrow> (int \<times> int) option \<Rightarrow> bool" where
  "indicesOk n idx =
     (case idx of None \<Rightarrow> False
      | Some (a, b) \<Rightarrow> 0 \<le> a \<and> a < n \<and> 0 \<le> b \<and> b < n \<and> a \<noteq> b)"

definition traceInv :: "addr \<Rightarrow> (addr \<Rightarrow> int list) \<Rightarrow> state \<Rightarrow> bool" where
  "traceInv sa c0 s \<longleftrightarrow>
     sa < fresh s \<and> (\<forall>q<sa. cells s q = c0 q) \<and> length (cells s sa) = length (c0 sa) \<and>
     trace s \<noteq> [] \<and>
     (\<forall>t\<in>set (trace s). sa < array t \<and> array t < fresh s \<and> comparisonCount t \<le> count s) \<and>
     cells s (array (last (trace s))) = cells s sa \<and>
     cells s (array (hd (trace s))) = c0 sa \<and>
     sorted (map comparisonCount (trace s)) \<and>
     swapIndices (hd (trace s)) = None \<and>
     (\<forall>t\<in>set (tl (trace s)). indicesOk (int (length (c0 sa))) (swapIndices t))"

lemma traceInv_countComparison:
  "traceInv sa c0 s \<Longrightarrow> traceInv sa c0 (countComparison s)"
  by (auto simp: traceInv_def)

text \<open>A write to the working array followed by a snapshot.\<close>

definition rewritten :: "addr \<Rightarrow> state \<Rightarrow> state \<Rightarrow> bool" where
  "rewritten sa s s' \<longleftrightarrow>
     fresh s' = fresh s \<and> trace s' = trace s \<and> count s' = count s \<and>
     (\<forall>q. q \<noteq> sa \<longrightarrow> cells s' q = cells s q) \<and>
     length (cells s' sa) = length (cells s sa)"

lemma rewritten_put [simp]: "rewritten sa s (put sa i v s)"
  by (simp add: rewritten_def)

lemma rewritten_swapElems [simp]: "rewritten sa s (swapElems sa i j s)"
  by (simp add: rewritten_def)

lemma traceInv_pushStep:
  assumes inv: "traceInv sa c0 s" and rw: "rewritten sa s s'"
    and idx: "indicesOk (len s sa) idx"
  shows "traceInv sa c0 (pushStep sa idx s')"
proof -
  let ?new = "\<lparr>array = fresh s, swapIndices = idx, comparisonCount = count s\<rparr>"
  let ?s = "pushStep sa idx s'"
  from inv have ne: "trace s \<noteq> []" and lt: "sa < fresh s"
    and old: "\<forall>t\<in>set (trace s). sa < array t \<and> array t < fresh s \<and> comparisonCount t \<le> count s"
    and frame: "\<forall>q<sa. cells s q = c0 q" and ln: "length (cells s sa) = length (c0 sa)"
    and first: "cells s (array (hd (trace s))) = c0 sa"
    and srt: "sorted (map comparisonCount (trace s))"
    and none: "swapIndices (hd (trace s)) = None"
    and ok: "\<forall>t\<in>set (tl (trace s)). indicesOk (int (length (c0 sa))) (swapIndices t)"
    by (auto simp: traceInv_def)
  from rw have fr: "fresh s' = fresh s" and tr: "trace s' = trace s" and ct: "count s' = count s"
    and other: "\<And>q. q \<noteq> sa \<Longrightarrow> cells s' q = cells s q"
    and ln': "length (cells s' sa) = length (cells s sa)"
    by (auto simp: rewritten_def)
  have hd_eq: "hd (trace s @ [x]) = hd (trace s)" for x
    using ne by simp
  have tl_eq: "set (tl (trace s @ [x])) = insert x (set (tl (trace s)))" for x
    using ne by (cases "trace s") auto
  have hd_lt: "array (hd (trace s)) < fresh s" and hd_ne: "array (hd (trace s)) \<noteq> sa"
    using ne old hd_in_set [of "trace s"] by auto
  have c1: "sa < fresh ?s"
    using lt by (simp add: fr tr ct cells_pushStep)
  have c2: "\<forall>q<sa. cells ?s q = c0 q"
    using lt frame other by (simp add: fr tr ct cells_pushStep)
  have c3: "length (cells ?s sa) = length (c0 sa)"
    using ln ln' by simp
  have c4: "trace ?s \<noteq> []"
    by (simp add: fr tr ct cells_pushStep)
  have c5: "\<forall>t\<in>set (trace ?s). sa < array t \<and> array t < fresh ?s \<and> comparisonCount t \<le> count ?s"
    using old lt by (auto simp: fr tr ct)
  have c6: "cells ?s (array (last (trace ?s))) = cells ?s sa"
    by (simp add: fr tr ct cells_pushStep)
  have c7: "cells ?s (array (hd (trace ?s))) = c0 sa"
    using hd_lt hd_ne first other by (simp add: hd_eq fr tr ct cells_pushStep)
  have c8: "sorted (map comparisonCount (trace ?s))"
    using srt old by (simp add: fr tr ct sorted_append)
  have c9: "swapIndices (hd (trace ?s)) = None"
    using none by (simp add: hd_eq fr tr ct cells_pushStep)
  have c10: "\<forall>t\<in>set (tl (trace ?s)). indicesOk (int (length (c0 sa))) (swapIndices t)"
    using ok idx ln by (simp add: tl_eq len_def fr tr ct)
  from c1 c2 c3 c4 c5 c6 c7 c8 c9 c10 show ?thesis
    unfolding traceInv_def by blast
qed


lemma traceInv_len: "traceInv sa c0 s \<Longrightarrow> len s sa = int (length (c0 sa))"
  by (simp add: traceInv_def len_def)

lemma traceInv_swap_push:
  assumes "traceInv sa c0 s" and "0 \<le> a" and "a < len s sa" and "0 \<le> b" and "b < len s sa"
    and "a \<noteq> b"
  shows "traceInv sa c0 (pushStep sa (Some (a, b)) (swapElems sa a b s))"
  using assms by (intro traceInv_pushStep [where s = s]) (simp_all add: indicesOk_def)

lemma traceInv_put_push:
  assumes "traceInv sa c0 s" and "0 \<le> a" and "a < len s sa" and "0 \<le> b" and "b < len s sa"
    and "a \<noteq> b"
  shows "traceInv sa c0 (pushStep sa (Some (a, b)) (put sa k v s))"
  using assms by (intro traceInv_pushStep [where s = s]) (simp_all add: indicesOk_def)

subsection \<open>The loops keep the invariant\<close>

lemma traceInv_bubble_inner:
  "traceInv sa c0 (snd bs) \<Longrightarrow> 0 \<le> i \<Longrightarrow> 0 \<le> j \<Longrightarrow>
   traceInv sa c0 (snd (bubble_inner sa i j bs))"
proof (induction sa i j bs rule: bubble_inner.induct)
  case (1 sa i j swapped s)
  show ?case
  proof (cases "j < len s sa - 1 - i")
    case True
    let ?s1 = "countComparison s"
    from "1.prems" have inv1: "traceInv sa c0 ?s1"
      by (simp add: traceInv_countComparison)
    have inv2: "traceInv sa c0 (pushStep sa (Some (j, j + 1)) (swapElems sa j (j + 1) ?s1))"
      using inv1 True "1.prems" by (intro traceInv_swap_push) simp_all
    show ?thesis
      using True "1.IH" [OF True refl] inv1 inv2 "1.prems"
      by (subst bubble_inner.simps) (simp add: Let_def)
  next
    case False
    with "1.prems" show ?thesis
      by (subst bubble_inner.simps) simp
  qed
qed

lemma traceInv_bubble_outer:
  "traceInv sa c0 s \<Longrightarrow> 0 \<le> i \<Longrightarrow> traceInv sa c0 (bubble_outer sa i s)"
proof (induction sa i s rule: bubble_outer.induct)
  case (1 sa i s)
  show ?case
  proof (cases "i < len s sa - 1")
    case True
    obtain swapped s1 where eq: "bubble_inner sa i 0 (False, s) = (swapped, s1)"
      by (cases "bubble_inner sa i 0 (False, s)")
    have inv1: "traceInv sa c0 s1"
      using traceInv_bubble_inner [of sa c0 "(False, s)" i 0] "1.prems" eq by simp
    show ?thesis
      using True eq inv1 "1.IH" [OF True eq [symmetric]] "1.prems"
      by (subst bubble_outer.simps) simp
  next
    case False
    with "1.prems" show ?thesis
      by (subst bubble_outer.simps) simp
  qed
qed


lemma traceInv_partition_loop_aux:
  "traceInv sa c0 (snd st) \<Longrightarrow> - 1 \<le> fst st \<Longrightarrow> fst st < j \<Longrightarrow> high < len (snd st) sa \<Longrightarrow>
   traceInv sa c0 (snd (partition_loop sa pivot high j st))"
proof (induction sa pivot high j st rule: partition_loop.induct)
  case (1 sa pivot high j i s)
  from "1.prems" have inv: "traceInv sa c0 s" and i: "- 1 \<le> i" "i < j" and h: "high < len s sa"
    by simp_all
  show ?case
  proof (cases "j < high")
    case True
    let ?s1 = "countComparison s"
    from inv have inv1: "traceInv sa c0 ?s1"
      by (simp add: traceInv_countComparison)
    have inv2: "i + 1 \<noteq> j \<Longrightarrow>
        traceInv sa c0 (pushStep sa (Some (i + 1, j)) (swapElems sa (i + 1) j ?s1))"
      using inv1 True i h by (intro traceInv_swap_push) simp_all
    show ?thesis
    proof (cases "get ?s1 sa j < pivot")
      case less: True
      let ?s2 = "if i + 1 \<noteq> j then pushStep sa (Some (i + 1, j)) (swapElems sa (i + 1) j ?s1)
                 else ?s1"
      have inv3: "traceInv sa c0 ?s2"
        using inv1 inv2 by simp
      have "high < len ?s2 sa"
        using h by simp
      with "1.IH"(1) [OF True refl less refl] inv3 i True less
      show ?thesis
        by (subst partition_loop.simps) (simp add: Let_def)
    next
      case False
      with "1.IH"(2) [OF True refl False] inv1 i h True
      show ?thesis
        by (subst partition_loop.simps) (simp add: Let_def)
    qed
  next
    case False
    with inv show ?thesis
      by (subst partition_loop.simps) simp
  qed
qed

lemma traceInv_partition_loop:
  "traceInv sa c0 s \<Longrightarrow> - 1 \<le> i \<Longrightarrow> i < j \<Longrightarrow> high < len s sa \<Longrightarrow>
   traceInv sa c0 (snd (partition_loop sa pivot high j (i, s)))"
  using traceInv_partition_loop_aux [of sa c0 "(i, s)" j high pivot] by simp

lemma snd_partition_impl:
  "snd (partition_impl arr low high s) =
     (let r = partition_loop arr (get s arr high) high low (low - 1, s)
      in if fst r + 1 \<noteq> high
         then pushStep arr (Some (fst r + 1, high)) (swapElems arr (fst r + 1) high (snd r))
         else snd r)"
  by (simp add: partition_impl_def Let_def case_prod_beta)

lemma traceInv_partition_impl:
  assumes "traceInv sa c0 s" and "0 \<le> low" and "low \<le> high" and "high < len s sa"
  shows "traceInv sa c0 (snd (partition_impl sa low high s))"
proof -
  let ?r = "partition_loop sa (get s sa high) high low (low - 1, s)"
  have inv1: "traceInv sa c0 (snd ?r)"
    using assms by (intro traceInv_partition_loop) simp_all
  have bounds: "low - 1 \<le> fst ?r" "fst ?r < high"
    using partition_loop_bounds [of "low - 1" low high sa "get s sa high" s] assms by simp_all
  have "len (snd ?r) sa = len s sa"
    using inv1 assms(1) by (simp add: traceInv_len)
  then have "fst ?r + 1 \<noteq> high \<Longrightarrow>
      traceInv sa c0 (pushStep sa (Some (fst ?r + 1, high)) (swapElems sa (fst ?r + 1) high (snd ?r)))"
    using inv1 bounds assms by (intro traceInv_swap_push) simp_all
  with inv1 show ?thesis
    by (simp add: snd_partition_impl Let_def)
qed

lemma traceInv_quickSortHelper:
  "traceInv sa c0 s \<Longrightarrow> 0 \<le> low \<Longrightarrow> high < int (length (c0 sa)) \<Longrightarrow>
   traceInv sa c0 (quickSortHelper sa low high s)"
proof (induction sa low high s rule: quickSortHelper.induct)
  case (1 sa low high s)
  show ?case
  proof (cases "low < high")
    case True
    obtain p s1 where eq: "partition_impl sa low high s = (p, s1)"
      by (cases "partition_impl sa low high s")
    have pb: "low \<le> p" "p \<le> high"
      using partition_impl_bounds [of low high sa s] True eq by simp_all
    have inv1: "traceInv sa c0 s1"
      using traceInv_partition_impl [of sa c0 s low high] "1.prems" True eq
      by (simp add: traceInv_len)
    have inv2: "traceInv sa c0 (quickSortHelper sa low (p - 1) s1)"
      using "1.IH"(1) [OF True eq [symmetric] inv1] "1.prems" pb by simp
    have inv3: "traceInv sa c0 (quickSortHelper sa (p + 1) high (quickSortHelper sa low (p - 1) s1))"
      using "1.IH"(2) [OF True eq [symmetric] inv2] "1.prems" pb by simp
    show ?thesis
      using True eq inv3 by (subst quickSortHelper.simps) simp
  next
    case False
    with "1.prems" show ?thesis
      by (subst quickSortHelper.simps) simp
  qed
qed

lemma traceInv_count_add:
  "traceInv sa c0 s \<Longrightarrow> traceInv sa c0 (s\<lparr>count := count s + k\<rparr>)"
  by (auto simp: traceInv_def)

lemma selection_scan_bounds:
  "fst st < j \<Longrightarrow> fst st < len (snd st) sa \<Longrightarrow>
   fst st \<le> fst (selection_scan sa j st) \<and> fst (selection_scan sa j st) < len (snd st) sa"
proof (induction sa j st rule: selection_scan.induct)
  case (1 sa j minIndex s)
  show ?case
  proof (cases "j < len s sa")
    case True
    with 1 show ?thesis
      by (subst (1 2) selection_scan.simps) (auto simp: Let_def)
  next
    case False
    with 1 show ?thesis
      by (subst (1 2) selection_scan.simps) simp
  qed
qed

lemma traceInv_selection_pass:
  assumes "traceInv sa c0 s" and "0 \<le> i" and "i < len s sa"
  shows "traceInv sa c0 (selection_pass sa i s)"
proof -
  let ?r = "selection_scan sa (i + 1) (i, s)"
  have s1: "snd ?r = s\<lparr>count := count s + nat (len s sa - (i + 1))\<rparr>"
    by (rule selection_scan_state)
  have inv1: "traceInv sa c0 (snd ?r)"
    using assms(1) by (simp add: s1 traceInv_count_add)
  have len1: "len (snd ?r) sa = len s sa"
    by (simp add: s1 len_def)
  have bounds: "i \<le> fst ?r" "fst ?r < len s sa"
    using selection_scan_bounds [of "(i, s)" "i + 1" sa] assms by simp_all
  have "fst ?r \<noteq> i \<Longrightarrow>
      traceInv sa c0 (pushStep sa (Some (i, fst ?r)) (swapElems sa i (fst ?r) (snd ?r)))"
    using inv1 bounds assms len1 by (intro traceInv_swap_push) simp_all
  with inv1 show ?thesis
    by (simp add: selection_pass_def case_prod_beta)
qed

lemma traceInv_selection_outer:
  "traceInv sa c0 s \<Longrightarrow> 0 \<le> i \<Longrightarrow> traceInv sa c0 (selection_outer sa i s)"
proof (induction sa i s rule: selection_outer.induct)
  case (1 sa i s)
  show ?case
  proof (cases "i < len s sa - 1")
    case True
    have "traceInv sa c0 (selection_pass sa i s)"
      using "1.prems" True by (intro traceInv_selection_pass) simp_all
    with "1.IH" [OF True] "1.prems" True show ?thesis
      by (subst selection_outer.simps) simp
  next
    case False
    with "1.prems" show ?thesis
      by (subst selection_outer.simps) simp
  qed
qed

lemma insertion_shift_bounds:
  "- 1 \<le> fst st \<Longrightarrow>
   - 1 \<le> fst (insertion_shift sa key st) \<and> fst (insertion_shift sa key st) \<le> fst st"
proof (induction sa key st rule: insertion_shift.induct)
  case (1 sa key j s)
  show ?case
  proof (cases "j \<ge> 0")
    case True
    with 1 show ?thesis
      by (subst (1 2) insertion_shift.simps) (auto simp: Let_def)
  next
    case False
    with 1 show ?thesis
      by (subst (1 2) insertion_shift.simps) simp
  qed
qed

lemma insertion_shift_unmoved:
  assumes "- 1 \<le> j" and "fst (insertion_shift sa key (j, s)) = j"
  shows "snd (insertion_shift sa key (j, s)) = (if j \<ge> 0 then countComparison s else s)"
proof (cases "j \<ge> 0 \<and> get s sa j > key")
  case True
  let ?s2 = "pushStep sa (Some (j, j + 1)) (put sa (j + 1) (get s sa j) (countComparison s))"
  have "fst (insertion_shift sa key (j - 1, ?s2)) \<le> j - 1"
    using insertion_shift_bounds [of "(j - 1, ?s2)" sa key] True by simp
  moreover have "insertion_shift sa key (j, s) = insertion_shift sa key (j - 1, ?s2)"
    using True by (subst insertion_shift.simps) (simp add: Let_def)
  ultimately show ?thesis
    using assms(2) by simp
next
  case False
  then show ?thesis
    by (subst insertion_shift.simps) (auto simp: Let_def)
qed

lemma traceInv_insertion_shift:
  "traceInv sa c0 (snd st) \<Longrightarrow> fst st + 1 < len (snd st) sa \<Longrightarrow>
   traceInv sa c0 (snd (insertion_shift sa key st))"
proof (induction sa key st rule: insertion_shift.induct)
  case (1 sa key j s)
  from "1.prems" have inv: "traceInv sa c0 s" and j: "j + 1 < len s sa"
    by simp_all
  show ?case
  proof (cases "j \<ge> 0")
    case True
    let ?s1 = "countComparison s"
    from inv have inv1: "traceInv sa c0 ?s1"
      by (simp add: traceInv_countComparison)
    have inv2: "traceInv sa c0 (pushStep sa (Some (j, j + 1)) (put sa (j + 1) (get ?s1 sa j) ?s1))"
      using inv1 True j by (intro traceInv_put_push) simp_all
    show ?thesis
      using True "1.IH" [OF True refl] inv1 inv2 j
      by (subst insertion_shift.simps) (simp add: Let_def)
  next
    case False
    with inv show ?thesis
      by (subst insertion_shift.simps) simp
  qed
qed

lemma put_same: "cells s a ! nat i = v \<Longrightarrow> put a i v s = s"
  by (auto simp: put_def)

lemma traceInv_insertion_pass:
  assumes inv: "traceInv sa c0 s" and i: "0 \<le> i" "i < len s sa"
  shows "traceInv sa c0 (insertion_pass sa i s)"
proof -
  let ?key = "get s sa i"
  let ?r = "insertion_shift sa ?key (i - 1, s)"
  let ?s2 = "put sa (fst ?r + 1) ?key (snd ?r)"
  have inv1: "traceInv sa c0 (snd ?r)"
    using traceInv_insertion_shift [of sa c0 "(i - 1, s)" ?key] inv i by simp
  have bounds: "- 1 \<le> fst ?r" "fst ?r \<le> i - 1"
    using insertion_shift_bounds [of "(i - 1, s)" sa ?key] i by simp_all
  have len1: "len (snd ?r) sa = len s sa"
    using inv inv1 by (simp add: traceInv_len)
  have moved: "fst ?r + 1 \<noteq> i \<Longrightarrow> traceInv sa c0 (pushStep sa (Some (fst ?r + 1, i)) ?s2)"
    using inv1 bounds i len1 by (intro traceInv_put_push) simp_all
  have unmoved: "traceInv sa c0 ?s2" if "fst ?r + 1 = i"
  proof -
    from that have eq: "fst ?r = i - 1"
      by simp
    have "cells (snd ?r) = cells s"
      using insertion_shift_unmoved [of "i - 1" sa ?key s] i eq
      by (simp split: if_splits)
    then have "?s2 = snd ?r"
      using that by (intro put_same) (simp add: get_def)
    with inv1 show ?thesis
      by simp
  qed
  show ?thesis
    using moved unmoved by (simp add: insertion_pass_def Let_def case_prod_beta)
qed

lemma traceInv_insertion_outer:
  "traceInv sa c0 s \<Longrightarrow> 0 \<le> i \<Longrightarrow> traceInv sa c0 (insertion_outer sa i s)"
proof (induction sa i s rule: insertion_outer.induct)
  case (1 sa i s)
  show ?case
  proof (cases "i < len s sa")
    case True
    have "traceInv sa c0 (insertion_pass sa i s)"
      using "1.prems" True by (intro traceInv_insertion_pass) simp_all
    with "1.IH" [OF True] "1.prems" True show ?thesis
      by (subst insertion_outer.simps) simp
  next
    case False
    with "1.prems" show ?thesis
      by (subst insertion_outer.simps) simp
  qed
qed

subsection \<open>The dispatcher's branches\<close>

lemma isAlreadySorted_iff: "isAlreadySorted xs \<longleftrightarrow> sorted xs"
proof
  assume a: "isAlreadySorted xs"
  have "xs ! i \<le> xs ! Suc i" if "Suc i < length xs" for i
    using a that by (auto simp: isAlreadySorted_def list_all_iff dest!: bspec [where x = "Suc i"])
  then show "sorted xs"
    by (simp add: sorted_iff_nth_Suc)
next
  assume s: "sorted xs"
  have "i = 0 \<or> xs ! (i - 1) \<le> xs ! i" if "i < length xs" for i
    using s that by (cases i) (auto simp: sorted_iff_nth_Suc)
  then show "isAlreadySorted xs"
    by (simp add: isAlreadySorted_def list_all_iff)
qed

lemma sort_impl_sorted:
  assumes "validInput e h a" and "sorted (cells h a)"
  shows "sort_impl e clk h (ArrayRef a) algorithm =
     \<lparr>logged = [LogInfo ''Array is already sorted''],
      heapAfter = h\<lparr>cells := (cells h)(fresh h := cells h a, Suc (fresh h) := cells h a),
                    fresh := Suc (Suc (fresh h))\<rparr>,
      returned = Inr
        \<lparr>steps = [\<lparr>array = fresh h, swapIndices = None, comparisonCount = 0\<rparr>],
         sortedArray = Suc (fresh h), executionTime = 0,
         algorithmType = algorithm, totalComparisons = 0\<rparr>\<rparr>"
  using assms
  by (simp add: sort_impl_def validInput_def isAlreadySorted_iff copyArray_def)

lemma sort_impl_unsupported:
  assumes "validInput e h a" and "\<not> sorted (cells h a)"
    and "toLowerCase algorithm \<notin> {''bubble'', ''quick'', ''selection'', ''insertion''}"
  shows "sort_impl e clk h (ArrayRef a) algorithm =
     thrown [LogInfo ''Starting sort operation''] h (UnsupportedAlgorithm algorithm)"
  using assms
  by (simp add: sort_impl_def validInput_def isAlreadySorted_iff Let_def)

lemma sort_impl_executor:
  assumes "validInput e h a" and "\<not> sorted (cells h a)"
  shows "sort_impl e clk h (ArrayRef a) algorithm =
     (let log = [LogInfo ''Starting sort operation'']; name = toLowerCase algorithm
      in if name = ''bubble'' then completed log (bubbleSort clk h a)
         else if name = ''quick'' then completed log (quickSort clk h a)
         else if name = ''selection'' then completed log (selectionSort clk h a)
         else if name = ''insertion'' then completed log (insertionSort clk h a)
         else thrown log h (UnsupportedAlgorithm algorithm))"
  using assms
  by (simp add: sort_impl_def validInput_def isAlreadySorted_iff)

subsection \<open>What every executor hands back\<close>

text \<open>
  The state after the common prologue of the executors: \<open>sortedArray = [...arr]\<close>, then
  the initial snapshot is pushed. The working copy lives at the first free address.
\<close>

definition start :: "heap \<Rightarrow> addr \<Rightarrow> state" where
  "start h arr = pushStep (fresh h) None (snd (copyArray arr (initState h)))"

definition cells0 :: "heap \<Rightarrow> addr \<Rightarrow> addr \<Rightarrow> int list" where
  "cells0 h arr = (cells h)(fresh h := cells h arr)"

lemma start_simps [simp]:
  "cells (start h arr) (fresh h) = cells h arr"
  "len (start h arr) (fresh h) = len h arr"
  "count (start h arr) = 0"
  by (simp_all add: start_def len_def cells_pushStep)

lemma traceInv_start: "traceInv (fresh h) (cells0 h arr) (start h arr)"
  by (simp add: traceInv_def start_def cells0_def cells_pushStep)

text \<open>
  \<open>produces h arr s hr\<close>: the pair \<open>hr\<close> of store and result object is read off the
  final state \<open>s\<close> of an executor that was started on \<open>arr\<close> in \<open>h\<close>.
\<close>

definition produces :: "heap \<Rightarrow> addr \<Rightarrow> state \<Rightarrow> heap \<times> sortResult \<Rightarrow> bool" where
  "produces h arr s hr \<longleftrightarrow>
     traceInv (fresh h) (cells0 h arr) s \<and> fst hr = heapOf s \<and> steps (snd hr) = trace s \<and>
     sortedArray (snd hr) = fresh h \<and> totalComparisons (snd hr) = count s"

lemma bubbleSort_eq:
  "bubbleSort clk h arr =
     (heapOf (bubble_outer (fresh h) 0 (start h arr)),
      \<lparr>steps = trace (bubble_outer (fresh h) 0 (start h arr)), sortedArray = fresh h,
       executionTime = finishTime clk - startTime clk, algorithmType = ''bubble'',
       totalComparisons = count (bubble_outer (fresh h) 0 (start h arr))\<rparr>)"
  by (simp add: bubbleSort_def start_def copyArray_def Let_def)

lemma quickSort_eq:
  "quickSort clk h arr =
     (heapOf (quickSortHelper (fresh h) 0 (len h arr - 1) (start h arr)),
      \<lparr>steps = trace (quickSortHelper (fresh h) 0 (len h arr - 1) (start h arr)),
       sortedArray = fresh h,
       executionTime = finishTime clk - startTime clk, algorithmType = ''quick'',
       totalComparisons = count (quickSortHelper (fresh h) 0 (len h arr - 1) (start h arr))\<rparr>)"
  by (simp add: quickSort_def start_def copyArray_def Let_def len_def)

lemma selectionSort_eq:
  "selectionSort clk h arr =
     (heapOf (selection_outer (fresh h) 0 (start h arr)),
      \<lparr>steps = trace (selection_outer (fresh h) 0 (start h arr)), sortedArray = fresh h,
       executionTime = finishTime clk - startTime clk, algorithmType = ''selection'',
       totalComparisons = count (selection_outer (fresh h) 0 (start h arr))\<rparr>)"
  by (simp add: selectionSort_def start_def copyArray_def Let_def)

lemma insertionSort_eq:
  "insertionSort clk h arr =
     (heapOf (insertion_outer (fresh h) 1 (start h arr)),
      \<lparr>steps = trace (insertion_outer (fresh h) 1 (start h arr)), sortedArray = fresh h,
       executionTime = finishTime clk - startTime clk, algorithmType = ''insertion'',
       totalComparisons = count (insertion_outer (fresh h) 1 (start h arr))\<rparr>)"
  by (simp add: insertionSort_def start_def copyArray_def Let_def)

lemma produces_bubbleSort:
  "produces h arr (bubble_outer (fresh h) 0 (start h arr)) (bubbleSort clk h arr)"
  by (simp add: produces_def bubbleSort_eq traceInv_bubble_outer traceInv_start)

lemma produces_quickSort:
  "produces h arr (quickSortHelper (fresh h) 0 (len h arr - 1) (start h arr))
     (quickSort clk h arr)"
proof -
  have "traceInv (fresh h) (cells0 h arr)
      (quickSortHelper (fresh h) 0 (len h arr - 1) (start h arr))"
    by (rule traceInv_quickSortHelper [OF traceInv_start]) (simp_all add: cells0_def len_def)
  then show ?thesis
    by (simp add: produces_def quickSort_eq)
qed

lemma produces_selectionSort:
  "produces h arr (selection_outer (fresh h) 0 (start h arr)) (selectionSort clk h arr)"
  by (simp add: produces_def selectionSort_eq traceInv_selection_outer traceInv_start)

lemma produces_insertionSort:
  "produces h arr (insertion_outer (fresh h) 1 (start h arr)) (insertionSort clk h arr)"
  by (simp add: produces_def insertionSort_eq traceInv_insertion_outer traceInv_start)

text \<open>The same shape for the object built in the already-sorted branch.\<close>

definition fastPath :: "heap \<Rightarrow> addr \<Rightarrow> string \<Rightarrow> outcome" where
  "fastPath h a algorithm =
     \<lparr>logged = [LogInfo ''Array is already sorted''],
      heapAfter = h\<lparr>cells := (cells h)(fresh h := cells h a, Suc (fresh h) := cells h a),
                    fresh := Suc (Suc (fresh h))\<rparr>,
      returned = Inr
        \<lparr>steps = [\<lparr>array = fresh h, swapIndices = None, comparisonCount = 0\<rparr>],
         sortedArray = Suc (fresh h), executionTime = 0,
         algorithmType = algorithm, totalComparisons = 0\<rparr>\<rparr>"

text \<open>
  Every object \<open>sort\<close> returns comes from one of five places.
\<close>

lemma sort_impl_returns:
  assumes "returned (sort_impl e clk h v algorithm) = Inr r"
  obtains (sorted) a where "v = ArrayRef a" and "sorted (cells h a)"
      and "sort_impl e clk h v algorithm = fastPath h a algorithm"
    | (executor) a s where "v = ArrayRef a" and "\<not> sorted (cells h a)"
      and "produces h a s (heapAfter (sort_impl e clk h v algorithm), r)"
proof (cases v)
  case NotAnArray
  with assms show ?thesis
    by (simp add: sort_impl_def thrown_def)
next
  case (ArrayRef a)
  show ?thesis
  proof (cases "sorted (cells h a)")
    case True
    with assms ArrayRef have "sort_impl e clk h v algorithm = fastPath h a algorithm"
      by (simp add: sort_impl_def thrown_def fastPath_def isAlreadySorted_iff copyArray_def
          split: if_splits)
    then show ?thesis
      by (rule sorted [OF ArrayRef True])
  next
    case False
    let ?name = "toLowerCase algorithm"
    from assms ArrayRef False
    consider "?name = ''bubble''" "heapAfter (sort_impl e clk h v algorithm) = fst (bubbleSort clk h a)"
        "r = snd (bubbleSort clk h a)"
      | "?name = ''quick''" "heapAfter (sort_impl e clk h v algorithm) = fst (quickSort clk h a)"
        "r = snd (quickSort clk h a)"
      | "?name = ''selection''" "heapAfter (sort_impl e clk h v algorithm) = fst (selectionSort clk h a)"
        "r = snd (selectionSort clk h a)"
      | "?name = ''insertion''" "heapAfter (sort_impl e clk h v algorithm) = fst (insertionSort clk h a)"
        "r = snd (insertionSort clk h a)"
      by (auto simp: sort_impl_def thrown_def completed_def isAlreadySorted_iff Let_def
          split: if_splits)
    then show ?thesis
    proof cases
      case 1
      then show ?thesis
        using executor [OF ArrayRef False, of "bubble_outer (fresh h) 0 (start h a)"]
          produces_bubbleSort [of h a clk] by simp
    next
      case 2
      then show ?thesis
        using executor [OF ArrayRef False,
            of "quickSortHelper (fresh h) 0 (len h a - 1) (start h a)"]
          produces_quickSort [of h a clk] by simp
    next
      case 3
      then show ?thesis
        using executor [OF ArrayRef False, of "selection_outer (fresh h) 0 (start h a)"]
          produces_selectionSort [of h a clk] by simp
    next
      case 4
      then show ?thesis
        using executor [OF ArrayRef False, of "insertion_outer (fresh h) 1 (start h a)"]
          produces_insertionSort [of h a clk] by simp
    qed
  qed
qed

subsection \<open>Example inputs\<close>

text \<open>
  A store that holds one array, the caller's, at address 0; the environment without
  \<open>MAX_ARRAY_SIZE\<close>; a clock that reads 0 twice.
\<close>

definition emptyCells :: "addr \<Rightarrow> int list" where
  "emptyCells a = []"

definition heapWith :: "int list \<Rightarrow> heap" where
  "heapWith xs = \<lparr>cells = emptyCells(0 := xs), fresh = 1\<rparr>"

definition defaultEnv :: env where
  "defaultEnv = \<lparr>MAX_ARRAY_SIZE = None\<rparr>"

definition clock0 :: clock where
  "clock0 = \<lparr>startTime = 0, finishTime = 0\<rparr>"

lemma validInput_heapWith:
  "xs \<noteq> [] \<Longrightarrow> length xs \<le> 1000 \<Longrightarrow> validInput defaultEnv (heapWith xs) 0"
  by (simp add: validInput_def heapWith_def defaultEnv_def maxArraySize_def len_def)

lemma heapWith_simps [simp]:
  "cells (heapWith xs) 0 = xs"
  "fresh (heapWith xs) = 1"
  "len (heapWith xs) 0 = int (length xs)"
  by (simp_all add: heapWith_def len_def)

lemma toLowerCase_names [simp]:
  "toLowerCase ''bubble'' = ''bubble''"
  "toLowerCase ''quick'' = ''quick''"
  "toLowerCase ''selection'' = ''selection''"
  "toLowerCase ''insertion'' = ''insertion''"
  "toLowerCase ''heap'' = ''heap''"
  by (simp_all add: toLowerCase_def lowerChar_def)

subsection \<open>Results of the dispatcher\<close>

lemma sort_impl_fastPath:
  assumes "validInput e h a" and "sorted (cells h a)"
  shows "sort_impl e clk h (ArrayRef a) algorithm = fastPath h a algorithm"
  using assms by (simp add: sort_impl_sorted fastPath_def)

lemma sort_impl_succeeds:
  assumes "validInput e h a"
    and "toLowerCase algorithm \<in> {''bubble'', ''quick'', ''selection'', ''insertion''}"
  shows "\<exists>r. returned (sort_impl e clk h (ArrayRef a) algorithm) = Inr r"
proof (cases "sorted (cells h a)")
  case True
  with assms(1) show ?thesis
    by (simp add: sort_impl_fastPath fastPath_def)
next
  case False
  with assms show ?thesis
    by (auto simp: sort_impl_executor Let_def completed_def)
qed

lemma sort_impl_error_heap:
  assumes "returned (sort_impl e clk h v algorithm) = Inl err"
  shows "heapAfter (sort_impl e clk h v algorithm) = h"
  using assms
  by (auto simp: sort_impl_def thrown_def completed_def copyArray_def Let_def
      split: jsvalue.splits if_splits)

text \<open>
  C6. The checks at the head of \<open>sort\<close> throw before anything is allocated: a value
  that is not an array gives \<open>'Input must be an array'\<close>, an empty array gives
  \<open>'Array cannot be empty'\<close>, and a non-empty array longer than the configured maximum
  gives \<open>'Array size exceeds maximum limit of ...'\<close>. The checks run in this order, the
  three errors are different, nothing is returned and the store is as it was.
\<close>

theorem sort_precondition_failures:
  "returned (sort_impl e clk h NotAnArray algorithm) = Inl InputMustBeArray \<and>
   heapAfter (sort_impl e clk h NotAnArray algorithm) = h \<and>
   (cells h a = [] \<longrightarrow>
      returned (sort_impl e clk h (ArrayRef a) algorithm) = Inl ArrayCannotBeEmpty \<and>
      heapAfter (sort_impl e clk h (ArrayRef a) algorithm) = h) \<and>
   (cells h a \<noteq> [] \<and> len h a > maxArraySize e \<longrightarrow>
      returned (sort_impl e clk h (ArrayRef a) algorithm) = Inl ArraySizeExceedsLimit \<and>
      heapAfter (sort_impl e clk h (ArrayRef a) algorithm) = h) \<and>
   distinct [InputMustBeArray, ArrayCannotBeEmpty, ArraySizeExceedsLimit]"
  by (simp add: sort_impl_def thrown_def)

theorem sort_precondition_failures_witness:
  "returned (sort_impl defaultEnv clock0 (heapWith []) (ArrayRef 0) ''bubble'')
     = Inl ArrayCannotBeEmpty \<and>
   returned (sort_impl \<lparr>MAX_ARRAY_SIZE = Some 2\<rparr> clock0 (heapWith [3, 1, 2]) (ArrayRef 0) ''bubble'')
     = Inl ArraySizeExceedsLimit"
  using sort_precondition_failures [of defaultEnv clock0 "heapWith []" "''bubble''" 0]
    sort_precondition_failures [of "\<lparr>MAX_ARRAY_SIZE = Some 2\<rparr>" clock0 "heapWith [3, 1, 2]"
      "''bubble''" 0]
  by (simp add: thrown_def maxArraySize_def)

text \<open>
  C9. \<open>sort\<close> writes to no array that existed before the call: whatever the first
  argument and the identifier are, every array allocated before the call (the caller's
  among them) holds afterwards what it held before, and the array references in a returned
  object (\<open>sortedArray\<close> and the \<open>array\<close> of every step) are arrays allocated during the
  call, so none of them is the caller's array.
\<close>

theorem sort_never_mutates_caller:
  "(\<forall>q<fresh h. cells (heapAfter (sort_impl e clk h v algorithm)) q = cells h q) \<and>
   (\<forall>r. returned (sort_impl e clk h v algorithm) = Inr r \<longrightarrow>
      fresh h \<le> sortedArray r \<and> (\<forall>t\<in>set (steps r). fresh h \<le> array t))"
proof (cases "returned (sort_impl e clk h v algorithm)")
  case (Inl err)
  then show ?thesis
    by (simp add: sort_impl_error_heap)
next
  case (Inr r)
  then show ?thesis
  proof (cases rule: sort_impl_returns)
    case (sorted a)
    with Inr show ?thesis
      by (auto simp: fastPath_def)
  next
    case (executor a s)
    then have inv: "traceInv (fresh h) (cells0 h a) s"
      and hp: "heapAfter (sort_impl e clk h v algorithm) = heapOf s"
      and st: "steps r = trace s" and sa: "sortedArray r = fresh h"
      by (simp_all add: produces_def)
    from inv have "\<forall>q<fresh h. cells s q = cells h q"
      and "\<forall>t\<in>set (trace s). fresh h < array t"
      by (auto simp: traceInv_def cells0_def)
    with Inr hp st sa show ?thesis
      by auto
  qed
qed

theorem sort_never_mutates_caller_witness:
  "cells (heapAfter (sort_impl defaultEnv clock0 (heapWith [3, 1, 2]) (ArrayRef 0) ''quick'')) 0
     = [3, 1, 2]"
  using sort_never_mutates_caller [of "heapWith [3, 1, 2]" defaultEnv clock0 "ArrayRef 0" "''quick''"]
  by simp

text \<open>
  C3. For a valid input of length \<open>n\<close> and each of the four algorithms, \<open>sort\<close> returns
  an object whose first step has \<open>swapIndices: null\<close> and whose every later step has a
  pair of different indices, both in \<open>[0, n)\<close>.
\<close>

theorem swapIndices_in_bounds:
  assumes "validInput e h a"
    and "toLowerCase algorithm \<in> {''bubble'', ''quick'', ''selection'', ''insertion''}"
  shows "\<exists>r. returned (sort_impl e clk h (ArrayRef a) algorithm) = Inr r \<and>
           steps r \<noteq> [] \<and> swapIndices (hd (steps r)) = None \<and>
           (\<forall>t\<in>set (tl (steps r)). \<exists>i j. swapIndices t = Some (i, j) \<and>
              0 \<le> i \<and> i < len h a \<and> 0 \<le> j \<and> j < len h a \<and> i \<noteq> j)"
proof -
  from sort_impl_succeeds [OF assms] obtain r
    where r: "returned (sort_impl e clk h (ArrayRef a) algorithm) = Inr r"
    by blast
  from r have "steps r \<noteq> [] \<and> swapIndices (hd (steps r)) = None \<and>
           (\<forall>t\<in>set (tl (steps r)). \<exists>i j. swapIndices t = Some (i, j) \<and>
              0 \<le> i \<and> i < len h a \<and> 0 \<le> j \<and> j < len h a \<and> i \<noteq> j)"
  proof (cases rule: sort_impl_returns)
    case (sorted b)
    with r show ?thesis
      by (auto simp: fastPath_def)
  next
    case (executor b s)
    then have inv: "traceInv (fresh h) (cells0 h a) s" and st: "steps r = trace s"
      by (simp_all add: produces_def)
    from inv have "trace s \<noteq> []" and "swapIndices (hd (trace s)) = None"
      and "\<forall>t\<in>set (tl (trace s)). indicesOk (len h a) (swapIndices t)"
      by (simp_all add: traceInv_def cells0_def len_def)
    then show ?thesis
      by (auto simp: st indicesOk_def split: option.splits)
  qed
  with r show ?thesis
    by blast
qed

theorem swapIndices_in_bounds_witness:
  "\<exists>r. returned (sort_impl defaultEnv clock0 (heapWith [3, 1, 2]) (ArrayRef 0) ''insertion'') = Inr r \<and>
       steps r \<noteq> [] \<and> swapIndices (hd (steps r)) = None \<and>
       (\<forall>t\<in>set (tl (steps r)). \<exists>i j. swapIndices t = Some (i, j) \<and>
          0 \<le> i \<and> i < 3 \<and> 0 \<le> j \<and> j < 3 \<and> i \<noteq> j)"
  using swapIndices_in_bounds [of defaultEnv "heapWith [3, 1, 2]" 0 "''insertion''" clock0]
  by (simp add: validInput_heapWith)


text \<open>
  C2, as stated, fails: \<open>comparisonCount\<close> goes up at every comparison, a step is pushed
  only at a swap, so comparisons made after the last swap are in \<open>totalComparisons\<close> and in
  no step. On \<open>[2, 1, 3]\<close> bubble sort swaps once, at its first comparison, and compares
  three times: the last step carries 1, \<open>totalComparisons\<close> is 3.
\<close>

theorem totalComparisons_counterexample:
  "returned (sort_impl defaultEnv clock0 (heapWith [2, 1, 3]) (ArrayRef 0) ''bubble'') =
     Inr \<lparr>steps = [\<lparr>array = 2, swapIndices = None, comparisonCount = 0\<rparr>,
                  \<lparr>array = 3, swapIndices = Some (0, 1), comparisonCount = 1\<rparr>],
          sortedArray = 1, executionTime = 0, algorithmType = ''bubble'',
          totalComparisons = 3\<rparr>"
  by code_simp

text \<open>
  C2, amended. For a valid input and each of the four algorithms, \<open>comparisonCount\<close> is
  non-decreasing along the trace and the last step's \<open>comparisonCount\<close> is at most
  \<open>totalComparisons\<close>.
\<close>

theorem comparisonCount_monotone:
  assumes "validInput e h a"
    and "toLowerCase algorithm \<in> {''bubble'', ''quick'', ''selection'', ''insertion''}"
  shows "\<exists>r. returned (sort_impl e clk h (ArrayRef a) algorithm) = Inr r \<and>
           sorted (map comparisonCount (steps r)) \<and>
           comparisonCount (last (steps r)) \<le> totalComparisons r"
proof -
  from sort_impl_succeeds [OF assms] obtain r
    where r: "returned (sort_impl e clk h (ArrayRef a) algorithm) = Inr r"
    by blast
  from r have "sorted (map comparisonCount (steps r)) \<and>
           comparisonCount (last (steps r)) \<le> totalComparisons r"
  proof (cases rule: sort_impl_returns)
    case (sorted b)
    with r show ?thesis
      by (auto simp: fastPath_def)
  next
    case (executor b s)
    then have inv: "traceInv (fresh h) (cells0 h a) s" and st: "steps r = trace s"
      and tc: "totalComparisons r = count s"
      by (simp_all add: produces_def)
    from inv have "trace s \<noteq> []" and "sorted (map comparisonCount (trace s))"
      and "\<forall>t\<in>set (trace s). comparisonCount t \<le> count s"
      by (simp_all add: traceInv_def)
    then show ?thesis
      by (simp add: st tc)
  qed
  with r show ?thesis
    by blast
qed

theorem comparisonCount_monotone_witness:
  "\<exists>r. returned (sort_impl defaultEnv clock0 (heapWith [2, 1, 3]) (ArrayRef 0) ''bubble'') = Inr r \<and>
       sorted (map comparisonCount (steps r)) \<and>
       comparisonCount (last (steps r)) \<le> totalComparisons r"
  using comparisonCount_monotone [of defaultEnv "heapWith [2, 1, 3]" 0 "''bubble''" clock0]
  by (simp add: validInput_heapWith)

text \<open>
  C4. A valid input that is already non-decreasing (a one-element array is) takes the
  already-sorted branch, under each of the four algorithms: \<open>sort\<close> returns the object
  literal of that branch, whose trace is the initial snapshot alone and whose
  \<open>totalComparisons\<close> is 0. No executor runs: the only log line is
  \<open>'Array is already sorted'\<close> (\<open>'Starting sort operation'\<close>, logged before the
  \<open>switch\<close>, is absent), \<open>executionTime\<close> is the literal 0 whatever the clock reads, and the
  store has grown by the two copies of the literal only.
\<close>

theorem already_sorted_single_step:
  assumes "validInput e h a"
    and "sorted (cells h a) \<or> length (cells h a) = 1"
    and "toLowerCase algorithm \<in> {''bubble'', ''quick'', ''selection'', ''insertion''}"
  shows "\<exists>r. returned (sort_impl e clk h (ArrayRef a) algorithm) = Inr r \<and>
           length (steps r) = 1 \<and> swapIndices (hd (steps r)) = None \<and>
           comparisonCount (hd (steps r)) = 0 \<and>
           cells (heapAfter (sort_impl e clk h (ArrayRef a) algorithm)) (array (hd (steps r)))
             = cells h a \<and>
           totalComparisons r = 0 \<and> executionTime r = 0 \<and>
           logged (sort_impl e clk h (ArrayRef a) algorithm)
             = [LogInfo ''Array is already sorted''] \<and>
           fresh (heapAfter (sort_impl e clk h (ArrayRef a) algorithm)) = fresh h + 2"
proof -
  from assms(2) have "sorted (cells h a)"
    by (auto simp: length_Suc_conv)
  with assms(1) have "sort_impl e clk h (ArrayRef a) algorithm = fastPath h a algorithm"
    by (rule sort_impl_fastPath)
  then show ?thesis
    by (simp add: fastPath_def)
qed

theorem already_sorted_single_step_witness:
  "\<exists>r. returned (sort_impl defaultEnv clock0 (heapWith [2, 2, 2]) (ArrayRef 0) ''insertion'') = Inr r \<and>
       length (steps r) = 1 \<and> totalComparisons r = 0"
  using already_sorted_single_step [of defaultEnv "heapWith [2, 2, 2]" 0 "''insertion''" clock0]
  by (auto simp: validInput_heapWith)

text \<open>
  C10. The already-sorted branch comes before the \<open>switch\<close> over the identifier: for a
  valid input that is already non-decreasing, \<open>sort\<close> returns the one-step object with
  \<open>totalComparisons\<close> 0 and with \<open>algorithmType\<close> the identifier as it was passed, whatever
  string that is, and does not throw \<open>'Unsupported sorting algorithm'\<close>.
\<close>

theorem fast_path_precedes_identifier_check:
  assumes "validInput e h a" and "sorted (cells h a)"
  shows "\<exists>r. returned (sort_impl e clk h (ArrayRef a) algorithm) = Inr r \<and>
           algorithmType r = algorithm \<and> length (steps r) = 1 \<and> totalComparisons r = 0 \<and>
           returned (sort_impl e clk h (ArrayRef a) algorithm)
             \<noteq> Inl (UnsupportedAlgorithm algorithm)"
  using sort_impl_fastPath [OF assms, of clk algorithm] by (simp add: fastPath_def)

theorem fast_path_precedes_identifier_check_witness:
  "\<exists>r. returned (sort_impl defaultEnv clock0 (heapWith [1, 2, 3]) (ArrayRef 0) ''heap'') = Inr r \<and>
       algorithmType r = ''heap'' \<and> length (steps r) = 1 \<and> totalComparisons r = 0"
  using fast_path_precedes_identifier_check [of defaultEnv "heapWith [1, 2, 3]" 0 clock0 "''heap''"]
  by (auto simp: validInput_heapWith)

text \<open>
  C5, as stated, fails on a valid input that is already sorted: \<open>sort([1, 2, 3], 'heap')\<close>
  returns an object.
\<close>

theorem unsupported_identifier_counterexample:
  "returned (sort_impl defaultEnv clock0 (heapWith [1, 2, 3]) (ArrayRef 0) ''heap'') =
     Inr \<lparr>steps = [\<lparr>array = 1, swapIndices = None, comparisonCount = 0\<rparr>],
          sortedArray = 2, executionTime = 0, algorithmType = ''heap'',
          totalComparisons = 0\<rparr>"
  by code_simp

text \<open>
  C5, amended. For a valid input that is not already non-decreasing, an identifier whose
  lower-case form is none of \<open>bubble\<close>, \<open>quick\<close>, \<open>selection\<close>, \<open>insertion\<close> (\<open>heap\<close>, for
  one) makes \<open>sort\<close> throw \<open>'Unsupported sorting algorithm: ...'\<close>; nothing is returned and
  nothing is allocated.
\<close>

theorem unsupported_identifier_fails:
  assumes "validInput e h a" and "\<not> sorted (cells h a)"
    and "toLowerCase algorithm \<notin> {''bubble'', ''quick'', ''selection'', ''insertion''}"
  shows "returned (sort_impl e clk h (ArrayRef a) algorithm) = Inl (UnsupportedAlgorithm algorithm) \<and>
         heapAfter (sort_impl e clk h (ArrayRef a) algorithm) = h"
  using sort_impl_unsupported [OF assms, of clk] by (simp add: thrown_def)

theorem unsupported_identifier_fails_witness:
  "returned (sort_impl defaultEnv clock0 (heapWith [3, 1, 2]) (ArrayRef 0) ''heap'')
     = Inl (UnsupportedAlgorithm ''heap'') \<and>
   heapAfter (sort_impl defaultEnv clock0 (heapWith [3, 1, 2]) (ArrayRef 0) ''heap'')
     = heapWith [3, 1, 2]"
  using unsupported_identifier_fails [of defaultEnv "heapWith [3, 1, 2]" 0 "''heap''" clock0]
  by (simp add: validInput_heapWith)

subsection \<open>Rearrangements inside a segment\<close>

text \<open>
  \<open>segPerm lo hi xs ys\<close>: \<open>ys\<close> is \<open>xs\<close> with the elements at the positions
  \<open>lo, \<dots>, hi\<close> rearranged among themselves.
\<close>

definition segPerm :: "nat \<Rightarrow> nat \<Rightarrow> int list \<Rightarrow> int list \<Rightarrow> bool" where
  "segPerm lo hi xs ys \<longleftrightarrow>
     length ys = length xs \<and> mset ys = mset xs \<and>
     (\<forall>k. k < lo \<or> hi < k \<longrightarrow> ys ! k = xs ! k) \<and>
     (\<forall>k. lo \<le> k \<and> k \<le> hi \<longrightarrow> (\<exists>k'. lo \<le> k' \<and> k' \<le> hi \<and> ys ! k = xs ! k'))"

lemma segPerm_refl [simp]: "segPerm lo hi xs xs"
  unfolding segPerm_def by blast

lemma segPerm_mset: "segPerm lo hi xs ys \<Longrightarrow> mset ys = mset xs"
  by (simp add: segPerm_def)

lemma segPerm_length: "segPerm lo hi xs ys \<Longrightarrow> length ys = length xs"
  by (simp add: segPerm_def)

lemma segPerm_outside: "segPerm lo hi xs ys \<Longrightarrow> k < lo \<or> hi < k \<Longrightarrow> ys ! k = xs ! k"
  by (auto simp: segPerm_def)

lemma segPerm_inside:
  "segPerm lo hi xs ys \<Longrightarrow> lo \<le> k \<Longrightarrow> k \<le> hi \<Longrightarrow> \<exists>k'. lo \<le> k' \<and> k' \<le> hi \<and> ys ! k = xs ! k'"
  by (simp add: segPerm_def)

lemma segPerm_bound:
  assumes "segPerm lo hi xs ys" and "\<And>k. lo \<le> k \<Longrightarrow> k \<le> hi \<Longrightarrow> P (xs ! k)"
    and "lo \<le> k" and "k \<le> hi"
  shows "P (ys ! k)"
  using segPerm_inside [OF assms(1,3,4)] assms(2) by auto

lemma segPerm_trans:
  assumes "segPerm lo hi xs ys" and "segPerm lo hi ys zs"
  shows "segPerm lo hi xs zs"
proof -
  have "\<exists>k'. lo \<le> k' \<and> k' \<le> hi \<and> zs ! k = xs ! k'" if "lo \<le> k" "k \<le> hi" for k
  proof -
    from segPerm_inside [OF assms(2) that] obtain k1
      where "lo \<le> k1" "k1 \<le> hi" "zs ! k = ys ! k1"
      by blast
    with segPerm_inside [OF assms(1), of k1] show ?thesis
      by auto
  qed
  moreover have "zs ! k = xs ! k" if "k < lo \<or> hi < k" for k
    using segPerm_outside [OF assms(1) that] segPerm_outside [OF assms(2) that] by simp
  ultimately show ?thesis
    using assms unfolding segPerm_def by simp
qed

lemma segPerm_widen:
  assumes "segPerm lo hi xs ys" and "lo' \<le> lo" and "hi \<le> hi'"
  shows "segPerm lo' hi' xs ys"
proof -
  have "\<exists>k'. lo' \<le> k' \<and> k' \<le> hi' \<and> ys ! k = xs ! k'" if k: "lo' \<le> k" "k \<le> hi'" for k
  proof (cases "lo \<le> k \<and> k \<le> hi")
    case True
    with segPerm_inside [OF assms(1), of k] obtain k'
      where "lo \<le> k'" "k' \<le> hi" "ys ! k = xs ! k'"
      by blast
    with assms(2,3) show ?thesis
      by (intro exI [of _ k']) simp
  next
    case False
    with assms(1) have "ys ! k = xs ! k"
      by (intro segPerm_outside [OF assms(1)]) auto
    with k show ?thesis
      by blast
  qed
  moreover have "ys ! k = xs ! k" if "k < lo' \<or> hi' < k" for k
    using that assms(2,3) by (intro segPerm_outside [OF assms(1)]) auto
  ultimately show ?thesis
    using assms(1) unfolding segPerm_def by simp
qed

lemma segPerm_swap:
  assumes "lo \<le> a" "a \<le> hi" "lo \<le> b" "b \<le> hi" "hi < length xs"
  shows "segPerm lo hi xs (xs[a := xs ! b, b := xs ! a])"
proof -
  let ?ys = "xs[a := xs ! b, b := xs ! a]"
  have "mset ?ys = mset xs"
    using assms by (intro mset_swap) simp_all
  moreover have "?ys ! k = xs ! k" if "k < lo \<or> hi < k" for k
    using that assms by auto
  moreover have "\<exists>k'. lo \<le> k' \<and> k' \<le> hi \<and> ?ys ! k = xs ! k'" if "lo \<le> k" "k \<le> hi" for k
  proof -
    have "?ys ! k = xs ! (if k = b then a else if k = a then b else k)"
      using assms by (simp add: nth_list_update)
    with that assms show ?thesis
      by (intro exI [of _ "if k = b then a else if k = a then b else k"]) simp
  qed
  ultimately show ?thesis
    unfolding segPerm_def by simp
qed

lemma nat_succ: "0 \<le> j \<Longrightarrow> nat (j + 1) = Suc (nat j)"
  by simp

text \<open>A swap of the working array, seen on its contents.\<close>

lemma segPerm_swapElems:
  assumes "0 \<le> a" "0 \<le> b" "lo \<le> nat a" "nat a \<le> hi" "lo \<le> nat b" "nat b \<le> hi"
    and "int hi < len s sa"
  shows "segPerm lo hi (cells s sa) (cells (swapElems sa a b s) sa)"
proof -
  have "segPerm lo hi (cells s sa)
      ((cells s sa)[nat a := cells s sa ! nat b, nat b := cells s sa ! nat a])"
    using assms by (intro segPerm_swap) (simp_all add: len_def)
  then show ?thesis
    by simp
qed


subsection \<open>bubbleSort sorts\<close>

lemma bubble_inner_segPerm:
  "0 \<le> i \<Longrightarrow> 0 \<le> j \<Longrightarrow>
   segPerm (nat j) (nat (len (snd bs) sa - 1 - i)) (cells (snd bs) sa)
     (cells (snd (bubble_inner sa i j bs)) sa)"
proof (induction sa i j bs rule: bubble_inner.induct)
  case (1 sa i j swapped s)
  let ?m = "nat (len s sa - 1 - i)"
  show ?case
  proof (cases "j < len s sa - 1 - i")
    case True
    let ?s1 = "countComparison s"
    let ?s2 = "pushStep sa (Some (j, j + 1)) (swapElems sa j (j + 1) ?s1)"
    show ?thesis
    proof (cases "get ?s1 sa j > get ?s1 sa (j + 1)")
      case gt: True
      have "segPerm (nat j) ?m (cells ?s1 sa) (cells (swapElems sa j (j + 1) ?s1) sa)"
        using True "1.prems" by (intro segPerm_swapElems) simp_all
      then have a: "segPerm (nat j) ?m (cells s sa) (cells ?s2 sa)"
        by simp
      have "segPerm (nat (j + 1)) ?m (cells ?s2 sa)
          (cells (snd (bubble_inner sa i (j + 1) (True, ?s2))) sa)"
        using "1.IH"(1) [OF True refl gt] "1.prems" by simp
      then have "segPerm (nat j) ?m (cells ?s2 sa)
          (cells (snd (bubble_inner sa i (j + 1) (True, ?s2))) sa)"
        by (rule segPerm_widen) simp_all
      with a have "segPerm (nat j) ?m (cells s sa)
          (cells (snd (bubble_inner sa i (j + 1) (True, ?s2))) sa)"
        by (rule segPerm_trans)
      with True gt show ?thesis
        by (subst bubble_inner.simps) (simp add: Let_def)
    next
      case False
      have "segPerm (nat (j + 1)) ?m (cells ?s1 sa)
          (cells (snd (bubble_inner sa i (j + 1) (swapped, ?s1))) sa)"
        using "1.IH"(2) [OF True refl False] "1.prems" by simp
      then have "segPerm (nat j) ?m (cells s sa)
          (cells (snd (bubble_inner sa i (j + 1) (swapped, ?s1))) sa)"
        by (simp add: segPerm_widen)
      with True False show ?thesis
        by (subst bubble_inner.simps) (simp add: Let_def)
    qed
  next
    case False
    then show ?thesis
      by (subst bubble_inner.simps) simp
  qed
qed


lemma bubble_inner_flag:
  "fst bs \<Longrightarrow> fst (bubble_inner sa i j bs)"
proof (induction sa i j bs rule: bubble_inner.induct)
  case (1 sa i j swapped s)
  then show ?case
    by (subst bubble_inner.simps) (simp add: Let_def)
qed

text \<open>After the pass the largest element of the prefix is at its end.\<close>

lemma bubble_inner_max:
  "0 \<le> i \<Longrightarrow> 0 \<le> j \<Longrightarrow> j \<le> len (snd bs) sa - 1 - i \<Longrightarrow>
   \<forall>k\<le>nat j. cells (snd bs) sa ! k \<le> cells (snd bs) sa ! nat j \<Longrightarrow>
   \<forall>k\<le>nat (len (snd bs) sa - 1 - i).
      cells (snd (bubble_inner sa i j bs)) sa ! k
        \<le> cells (snd (bubble_inner sa i j bs)) sa ! nat (len (snd bs) sa - 1 - i)"
proof (induction sa i j bs rule: bubble_inner.induct)
  case (1 sa i j swapped s)
  let ?xs = "cells s sa"
  from "1.prems" have i: "0 \<le> i" and j: "0 \<le> j" and jm: "j \<le> len s sa - 1 - i"
    and mx: "\<forall>k\<le>nat j. ?xs ! k \<le> ?xs ! nat j"
    by simp_all
  show ?case
  proof (cases "j < len s sa - 1 - i")
    case True
    let ?s1 = "countComparison s"
    let ?s2 = "pushStep sa (Some (j, j + 1)) (swapElems sa j (j + 1) ?s1)"
    have nj: "nat (j + 1) = Suc (nat j)"
      using j by simp
    have inb: "nat j < length ?xs" "Suc (nat j) < length ?xs"
      using True i j by (simp_all add: len_def)
    show ?thesis
    proof (cases "get ?s1 sa j > get ?s1 sa (j + 1)")
      case gt: True
      then have lt: "?xs ! Suc (nat j) < ?xs ! nat j"
        by (simp add: get_def nj)
      have c2: "cells ?s2 sa = ?xs[nat j := ?xs ! Suc (nat j), Suc (nat j) := ?xs ! nat j]"
        by (simp add: nj)
      have "\<forall>k\<le>nat (j + 1). cells ?s2 sa ! k \<le> cells ?s2 sa ! nat (j + 1)"
      proof (intro allI impI)
        fix k assume "k \<le> nat (j + 1)"
        then consider "k = Suc (nat j)" | "k = nat j" | "k < nat j"
          using nj by linarith
        then show "cells ?s2 sa ! k \<le> cells ?s2 sa ! nat (j + 1)"
        proof cases
          case 1
          then show ?thesis by (simp add: nj)
        next
          case 2
          with inb lt show ?thesis
            by (simp add: c2 nj)
        next
          case 3
          with inb mx show ?thesis
            by (simp add: c2 nj)
        qed
      qed
      with "1.IH"(1) [OF True refl gt] i j True
      have "\<forall>k\<le>nat (len s sa - 1 - i).
          cells (snd (bubble_inner sa i (j + 1) (True, ?s2))) sa ! k
            \<le> cells (snd (bubble_inner sa i (j + 1) (True, ?s2))) sa ! nat (len s sa - 1 - i)"
        by simp
      with True gt show ?thesis
        by (subst (1 2) bubble_inner.simps) (simp add: Let_def)
    next
      case False
      then have le: "?xs ! nat j \<le> ?xs ! Suc (nat j)"
        by (simp add: get_def nj)
      have "\<forall>k\<le>nat (j + 1). cells ?s1 sa ! k \<le> cells ?s1 sa ! nat (j + 1)"
      proof (intro allI impI)
        fix k assume "k \<le> nat (j + 1)"
        then consider "k = Suc (nat j)" | "k \<le> nat j"
          using nj by linarith
        then show "cells ?s1 sa ! k \<le> cells ?s1 sa ! nat (j + 1)"
        proof cases
          case 1
          then show ?thesis by (simp add: nj)
        next
          case 2
          with mx le show ?thesis
            by (force simp: nj)
        qed
      qed
      with "1.IH"(2) [OF True refl False] i j True
      have "\<forall>k\<le>nat (len s sa - 1 - i).
          cells (snd (bubble_inner sa i (j + 1) (swapped, ?s1))) sa ! k
            \<le> cells (snd (bubble_inner sa i (j + 1) (swapped, ?s1))) sa ! nat (len s sa - 1 - i)"
        by simp
      with True False show ?thesis
        by (subst (1 2) bubble_inner.simps) (simp add: Let_def)
    qed
  next
    case False
    with jm have "j = len s sa - 1 - i"
      by simp
    with mx False show ?thesis
      by (subst (1 2) bubble_inner.simps) simp
  qed
qed

text \<open>A pass that leaves \<open>swapped\<close> false has found every adjacent pair in order.\<close>

lemma bubble_inner_noswap:
  "0 \<le> j \<Longrightarrow> \<not> fst (bubble_inner sa i j bs) \<Longrightarrow>
   cells (snd (bubble_inner sa i j bs)) sa = cells (snd bs) sa \<and>
   (\<forall>k. nat j \<le> k \<and> int k < len (snd bs) sa - 1 - i \<longrightarrow>
      cells (snd bs) sa ! k \<le> cells (snd bs) sa ! Suc k)"
proof (induction sa i j bs rule: bubble_inner.induct)
  case (1 sa i j swapped s)
  let ?xs = "cells s sa"
  from "1.prems" have j: "0 \<le> j" and ns: "\<not> fst (bubble_inner sa i j (swapped, s))"
    by simp_all
  have nj: "nat (j + 1) = Suc (nat j)"
    using j by simp
  show ?case
  proof (cases "j < len s sa - 1 - i")
    case True
    let ?s1 = "countComparison s"
    let ?s2 = "pushStep sa (Some (j, j + 1)) (swapElems sa j (j + 1) ?s1)"
    show ?thesis
    proof (cases "get ?s1 sa j > get ?s1 sa (j + 1)")
      case gt: True
      have "fst (bubble_inner sa i (j + 1) (True, ?s2))"
        by (rule bubble_inner_flag) simp
      moreover have "bubble_inner sa i j (swapped, s) = bubble_inner sa i (j + 1) (True, ?s2)"
        using True gt by (subst bubble_inner.simps) (simp add: Let_def)
      ultimately show ?thesis
        using ns by simp
    next
      case False
      then have le: "?xs ! nat j \<le> ?xs ! Suc (nat j)"
        by (simp add: get_def nj)
      have eq: "bubble_inner sa i j (swapped, s) = bubble_inner sa i (j + 1) (swapped, ?s1)"
        using True False by (subst bubble_inner.simps) (simp add: Let_def)
      with ns have "\<not> fst (bubble_inner sa i (j + 1) (swapped, ?s1))"
        by simp
      with "1.IH"(2) [OF True refl False] j
      have ih: "cells (snd (bubble_inner sa i (j + 1) (swapped, ?s1))) sa = ?xs"
        "\<forall>k. Suc (nat j) \<le> k \<and> int k < len s sa - 1 - i \<longrightarrow> ?xs ! k \<le> ?xs ! Suc k"
        by (simp_all add: nj)
      have "?xs ! k \<le> ?xs ! Suc k" if "nat j \<le> k" "int k < len s sa - 1 - i" for k
      proof (cases "k = nat j")
        case True
        with le show ?thesis by simp
      next
        case False
        with that have "Suc (nat j) \<le> k"
          by simp
        with that ih(2) show ?thesis
          by blast
      qed
      with ih(1) show ?thesis
        by (simp add: eq)
    qed
  next
    case False
    with j show ?thesis
      by (subst bubble_inner.simps) auto
  qed
qed


text \<open>
  The invariant of the outer loop: every element from position \<open>p\<close> on is at least as
  large as every element before it.
\<close>

definition settledFrom :: "nat \<Rightarrow> int list \<Rightarrow> bool" where
  "settledFrom p xs \<longleftrightarrow> (\<forall>k l. k \<le> l \<and> p \<le> l \<and> l < length xs \<longrightarrow> xs ! k \<le> xs ! l)"

lemma settledFrom_sorted:
  assumes "settledFrom p xs" and "\<forall>k. Suc k < p \<longrightarrow> xs ! k \<le> xs ! Suc k"
  shows "sorted xs"
proof -
  have pre: "xs ! k \<le> xs ! l" if "k \<le> l" "l < p" for k l
    using that
  proof (induction l)
    case 0
    then show ?case by simp
  next
    case (Suc l)
    show ?case
    proof (cases "k = Suc l")
      case True
      then show ?thesis by simp
    next
      case False
      with Suc.prems have "k \<le> l" "l < p"
        by simp_all
      then have "xs ! k \<le> xs ! l"
        by (rule Suc.IH)
      moreover have "xs ! l \<le> xs ! Suc l"
        using assms(2) Suc.prems by simp
      ultimately show ?thesis
        by simp
    qed
  qed
  have "xs ! k \<le> xs ! l" if "k \<le> l" "l < length xs" for k l
  proof (cases "l < p")
    case True
    with that pre show ?thesis by simp
  next
    case False
    with that assms(1) show ?thesis
      by (simp add: settledFrom_def)
  qed
  then show ?thesis
    by (simp add: sorted_iff_nth_mono)
qed

lemma bubble_outer_sorted:
  "0 \<le> i \<Longrightarrow> settledFrom (nat (len s sa - i)) (cells s sa) \<Longrightarrow>
   sorted (cells (bubble_outer sa i s) sa)"
proof (induction sa i s rule: bubble_outer.induct)
  case (1 sa i s)
  let ?xs = "cells s sa"
  from "1.prems" have i: "0 \<le> i" and st: "settledFrom (nat (len s sa - i)) ?xs"
    by simp_all
  show ?case
  proof (cases "i < len s sa - 1")
    case True
    let ?r = "bubble_inner sa i 0 (False, s)"
    let ?ys = "cells (snd ?r) sa"
    let ?m = "nat (len s sa - 1 - i)"
    have p: "nat (len s sa - i) = Suc ?m"
      using True by simp
    obtain swapped s1 where eq: "?r = (swapped, s1)"
      by (cases ?r)
    show ?thesis
    proof (cases swapped)
      case False
      with eq have "\<not> fst ?r"
        by simp
      from bubble_inner_noswap [OF _ this]
      have same: "?ys = ?xs" and adj: "\<forall>k. int k < len s sa - 1 - i \<longrightarrow> ?xs ! k \<le> ?xs ! Suc k"
        by simp_all
      have "\<forall>k. Suc k < Suc ?m \<longrightarrow> ?xs ! k \<le> ?xs ! Suc k"
        using adj by auto
      with st have "sorted ?xs"
        unfolding p by (rule settledFrom_sorted)
      with same eq False True show ?thesis
        by (subst bubble_outer.simps) simp
    next
      case sw: True
      have sp: "segPerm 0 ?m ?xs ?ys"
        using bubble_inner_segPerm [of i 0 "(False, s)" sa] i by simp
      have mx: "\<forall>k\<le>?m. ?ys ! k \<le> ?ys ! ?m"
        using bubble_inner_max [of i 0 "(False, s)" sa] i True by simp
      have ln: "length ?ys = length ?xs"
        using sp by (rule segPerm_length)
      have "settledFrom ?m ?ys"
        unfolding settledFrom_def
      proof (intro allI impI, elim conjE)
        fix k l assume kl: "k \<le> l" "?m \<le> l" "l < length ?ys"
        show "?ys ! k \<le> ?ys ! l"
        proof (cases "l = ?m")
          case True
          with mx kl show ?thesis by simp
        next
          case False
          with kl have l: "?m < l" "Suc ?m \<le> l" "l < length ?xs"
            using ln by simp_all
          then have yl: "?ys ! l = ?xs ! l"
            using segPerm_outside [OF sp, of l] by simp
          have "\<And>k'. k' \<le> l \<Longrightarrow> ?xs ! k' \<le> ?xs ! l"
            using st l unfolding p settledFrom_def by blast
          then have "?ys ! k \<le> ?xs ! l"
          proof (cases "k \<le> ?m")
            case True
            from segPerm_inside [OF sp _ True] obtain k' where "k' \<le> ?m" "?ys ! k = ?xs ! k'"
              by auto
            with l \<open>\<And>k'. k' \<le> l \<Longrightarrow> ?xs ! k' \<le> ?xs ! l\<close> [of k'] show ?thesis
              by simp
          next
            case False
            then have "?ys ! k = ?xs ! k"
              using segPerm_outside [OF sp, of k] by simp
            with kl \<open>\<And>k'. k' \<le> l \<Longrightarrow> ?xs ! k' \<le> ?xs ! l\<close> [of k] show ?thesis
              by simp
          qed
          with yl show ?thesis by simp
        qed
      qed
      moreover have "len s1 sa = len s sa"
        using ln eq by (simp add: len_def)
      moreover have "nat (len s sa - (i + 1)) = ?m"
        by (simp add: algebra_simps)
      ultimately have "settledFrom (nat (len s1 sa - (i + 1))) (cells s1 sa)"
        using eq by simp
      with "1.IH" [OF True eq [symmetric]] sw i
      have "sorted (cells (bubble_outer sa (i + 1) s1) sa)"
        by simp
      with True eq sw show ?thesis
        by (subst bubble_outer.simps) simp
    qed
  next
    case False
    then have "nat (len s sa - i) \<le> 1"
      by simp
    then have "\<forall>k. Suc k < nat (len s sa - i) \<longrightarrow> ?xs ! k \<le> ?xs ! Suc k"
      by simp
    with st have "sorted ?xs"
      by (rule settledFrom_sorted)
    with False show ?thesis
      by (subst bubble_outer.simps) simp
  qed
qed

lemma bubble_outer_mset:
  "0 \<le> i \<Longrightarrow> mset (cells (bubble_outer sa i s) sa) = mset (cells s sa)"
proof (induction sa i s rule: bubble_outer.induct)
  case (1 sa i s)
  show ?case
  proof (cases "i < len s sa - 1")
    case True
    obtain swapped s1 where eq: "bubble_inner sa i 0 (False, s) = (swapped, s1)"
      by (cases "bubble_inner sa i 0 (False, s)")
    have m1: "mset (cells s1 sa) = mset (cells s sa)"
      using bubble_inner_segPerm [of i 0 "(False, s)" sa] "1.prems" eq
      by (simp add: segPerm_def)
    show ?thesis
    proof (cases swapped)
      case False
      with True eq m1 show ?thesis
        by (subst bubble_outer.simps) simp
    next
      case sw: True
      with "1.IH" [OF True eq [symmetric]] "1.prems"
      have "mset (cells (bubble_outer sa (i + 1) s1) sa) = mset (cells s1 sa)"
        by simp
      with True eq sw m1 show ?thesis
        by (subst bubble_outer.simps) simp
    qed
  next
    case False
    then show ?thesis
      by (subst bubble_outer.simps) simp
  qed
qed

lemma settledFrom_length [simp]: "settledFrom (length xs) xs"
  by (simp add: settledFrom_def)

lemma bubbleSort_sorts:
  "sorted (cells (bubble_outer (fresh h) 0 (start h arr)) (fresh h)) \<and>
   mset (cells (bubble_outer (fresh h) 0 (start h arr)) (fresh h)) = mset (cells h arr)"
proof -
  have "settledFrom (nat (len (start h arr) (fresh h) - 0)) (cells (start h arr) (fresh h))"
    by (simp add: len_def)
  then show ?thesis
    using bubble_outer_sorted [of 0 "start h arr" "fresh h"]
      bubble_outer_mset [of 0 "fresh h" "start h arr"] by simp
qed

subsection \<open>selectionSort sorts\<close>

text \<open>The scan returns the position of a least element of the suffix.\<close>

lemma selection_scan_min:
  "0 \<le> fst st \<Longrightarrow> fst st < j \<Longrightarrow>
   cells (snd st) sa ! nat (fst (selection_scan sa j st)) \<le> cells (snd st) sa ! nat (fst st) \<and>
   (\<forall>k. nat j \<le> k \<and> k < length (cells (snd st) sa) \<longrightarrow>
      cells (snd st) sa ! nat (fst (selection_scan sa j st)) \<le> cells (snd st) sa ! k)"
proof (induction sa j st rule: selection_scan.induct)
  case (1 sa j minIndex s)
  let ?xs = "cells s sa"
  from "1.prems" have m: "0 \<le> minIndex" "minIndex < j"
    by simp_all
  show ?case
  proof (cases "j < len s sa")
    case True
    let ?s1 = "countComparison s"
    let ?m = "if get ?s1 sa j < get ?s1 sa minIndex then j else minIndex"
    let ?r = "fst (selection_scan sa (j + 1) (?m, ?s1))"
    have eq: "selection_scan sa j (minIndex, s) = selection_scan sa (j + 1) (?m, ?s1)"
      using True by (subst selection_scan.simps) (simp add: Let_def)
    from "1.IH" [OF True refl] m
    have ih: "?xs ! nat ?r \<le> ?xs ! nat ?m"
      "\<forall>k. nat (j + 1) \<le> k \<and> k < length ?xs \<longrightarrow> ?xs ! nat ?r \<le> ?xs ! k"
      by simp_all
    have mm: "?xs ! nat ?m \<le> ?xs ! nat minIndex" "?xs ! nat ?m \<le> ?xs ! nat j"
      by (simp_all add: get_def)
    have "?xs ! nat ?r \<le> ?xs ! k" if "nat j \<le> k" "k < length ?xs" for k
    proof (cases "k = nat j")
      case True
      with ih(1) mm(2) show ?thesis by simp
    next
      case False
      with that m have "nat (j + 1) \<le> k"
        by simp
      with that ih(2) show ?thesis by blast
    qed
    moreover have "?xs ! nat ?r \<le> ?xs ! nat minIndex"
      using ih(1) mm(1) by (rule order_trans)
    ultimately show ?thesis
      unfolding eq by simp
  next
    case False
    with m have "\<And>k. nat j \<le> k \<Longrightarrow> \<not> k < length ?xs"
      by (simp add: len_def)
    with False show ?thesis
      by (subst (1 2) selection_scan.simps) auto
  qed
qed

definition settledUpto :: "nat \<Rightarrow> int list \<Rightarrow> bool" where
  "settledUpto i xs \<longleftrightarrow> (\<forall>k l. k \<le> l \<and> k < i \<and> l < length xs \<longrightarrow> xs ! k \<le> xs ! l)"

lemma selection_pass_segPerm:
  assumes "0 \<le> i" and "i < len s sa"
  shows "segPerm (nat i) (nat (len s sa - 1)) (cells s sa) (cells (selection_pass sa i s) sa)"
proof -
  let ?r = "selection_scan sa (i + 1) (i, s)"
  have s1: "snd ?r = s\<lparr>count := count s + nat (len s sa - (i + 1))\<rparr>"
    by (rule selection_scan_state)
  have c1: "cells (snd ?r) sa = cells s sa" and l1: "len (snd ?r) sa = len s sa"
    by (simp_all add: s1 len_def)
  have bounds: "i \<le> fst ?r" "fst ?r < len s sa"
    using selection_scan_bounds [of "(i, s)" "i + 1" sa] assms by simp_all
  have "segPerm (nat i) (nat (len s sa - 1)) (cells (snd ?r) sa)
      (cells (swapElems sa i (fst ?r) (snd ?r)) sa)"
    using assms bounds l1 by (intro segPerm_swapElems) simp_all
  then show ?thesis
    by (simp add: selection_pass_def case_prod_beta c1)
qed

lemma selection_pass_least:
  assumes "0 \<le> i" and "i < len s sa" and "nat i \<le> k" and "k < length (cells s sa)"
  shows "cells (selection_pass sa i s) sa ! nat i \<le> cells (selection_pass sa i s) sa ! k"
proof -
  let ?xs = "cells s sa"
  let ?r = "selection_scan sa (i + 1) (i, s)"
  let ?ys = "cells (selection_pass sa i s) sa"
  have s1: "snd ?r = s\<lparr>count := count s + nat (len s sa - (i + 1))\<rparr>"
    by (rule selection_scan_state)
  have c1: "cells (snd ?r) sa = ?xs"
    by (simp add: s1)
  have bounds: "i \<le> fst ?r" "fst ?r < len s sa"
    using selection_scan_bounds [of "(i, s)" "i + 1" sa] assms by simp_all
  have mn: "?xs ! nat (fst ?r) \<le> ?xs ! nat i"
    "\<forall>k. nat (i + 1) \<le> k \<and> k < length ?xs \<longrightarrow> ?xs ! nat (fst ?r) \<le> ?xs ! k"
    using selection_scan_min [of "(i, s)" "i + 1" sa] assms by simp_all
  have least: "?xs ! nat (fst ?r) \<le> ?xs ! k'" if "nat i \<le> k'" "k' < length ?xs" for k'
  proof (cases "k' = nat i")
    case True
    with mn(1) show ?thesis by simp
  next
    case False
    with that assms(1) have "nat (i + 1) \<le> k'"
      by simp
    with that mn(2) show ?thesis by blast
  qed
  have inb: "nat i < length ?xs" "nat (fst ?r) < length ?xs"
    using assms bounds by (simp_all add: len_def)
  show ?thesis
  proof (cases "fst ?r = i")
    case True
    then have "?ys = ?xs"
      by (simp add: selection_pass_def case_prod_beta c1)
    with least [OF assms(3,4)] True show ?thesis
      by simp
  next
    case False
    then have ys: "?ys = ?xs[nat i := ?xs ! nat (fst ?r), nat (fst ?r) := ?xs ! nat i]"
      by (simp add: selection_pass_def case_prod_beta c1)
    from False bounds assms(1) have ne: "nat (fst ?r) \<noteq> nat i"
      by simp
    have yi: "?ys ! nat i = ?xs ! nat (fst ?r)"
      using inb ne by (simp add: ys)
    have "?ys ! k = ?xs ! (if k = nat (fst ?r) then nat i else if k = nat i then nat (fst ?r) else k)"
      using inb assms(4) by (simp add: ys nth_list_update)
    moreover have "nat i \<le> (if k = nat (fst ?r) then nat i else if k = nat i then nat (fst ?r) else k)"
      using assms(3) nat_mono [OF bounds(1)] by simp
    moreover have "(if k = nat (fst ?r) then nat i else if k = nat i then nat (fst ?r) else k)
        < length ?xs"
      using assms(4) inb by simp
    ultimately show ?thesis
      using least yi by metis
  qed
qed

lemma selection_outer_sorted:
  "0 \<le> i \<Longrightarrow> settledUpto (nat i) (cells s sa) \<Longrightarrow> sorted (cells (selection_outer sa i s) sa)"
proof (induction sa i s rule: selection_outer.induct)
  case (1 sa i s)
  let ?xs = "cells s sa"
  from "1.prems" have i: "0 \<le> i" and st: "settledUpto (nat i) ?xs"
    by simp_all
  show ?case
  proof (cases "i < len s sa - 1")
    case True
    let ?ys = "cells (selection_pass sa i s) sa"
    let ?n = "nat (len s sa - 1)"
    have sp: "segPerm (nat i) ?n ?xs ?ys"
      using i True by (intro selection_pass_segPerm) simp_all
    have ln: "length ?ys = length ?xs"
      using sp by (rule segPerm_length)
    have n: "Suc ?n = length ?xs"
      using True i by (simp add: len_def)
    have "settledUpto (nat (i + 1)) ?ys"
      unfolding settledUpto_def
    proof (intro allI impI, elim conjE)
      fix k l assume kl: "k \<le> l" "k < nat (i + 1)" "l < length ?ys"
      show "?ys ! k \<le> ?ys ! l"
      proof (cases "k = nat i")
        case True
        with kl ln selection_pass_least [of i s sa l] i \<open>i < len s sa - 1\<close> show ?thesis
          by simp
      next
        case False
        with kl i have k: "k < nat i"
          by simp
        then have yk: "?ys ! k = ?xs ! k"
          using segPerm_outside [OF sp, of k] by simp
        have up: "\<And>l'. k \<le> l' \<Longrightarrow> l' < length ?xs \<Longrightarrow> ?xs ! k \<le> ?xs ! l'"
          using st k unfolding settledUpto_def by blast
        show ?thesis
        proof (cases "l < nat i")
          case True
          then have "?ys ! l = ?xs ! l"
            using segPerm_outside [OF sp, of l] by simp
          with yk up [of l] kl ln show ?thesis by simp
        next
          case False
          then have "nat i \<le> l" "l \<le> ?n"
            using kl ln n by simp_all
          from segPerm_inside [OF sp this] obtain l'
            where "nat i \<le> l'" "l' \<le> ?n" "?ys ! l = ?xs ! l'"
            by blast
          with yk up [of l'] k n show ?thesis by simp
        qed
      qed
    qed
    with "1.IH" [OF True] i have "sorted (cells (selection_outer sa (i + 1) (selection_pass sa i s)) sa)"
      by simp
    with True show ?thesis
      by (subst selection_outer.simps) simp
  next
    case False
    have "?xs ! k \<le> ?xs ! l" if "k \<le> l" "l < length ?xs" for k l
    proof (cases "k < nat i")
      case True
      with st that show ?thesis
        unfolding settledUpto_def by blast
    next
      case ge: False
      with False that i have "k = l"
        by (simp add: len_def)
      then show ?thesis by simp
    qed
    then have "sorted ?xs"
      by (simp add: sorted_iff_nth_mono)
    with False show ?thesis
      by (subst selection_outer.simps) simp
  qed
qed

lemma selection_outer_mset:
  "0 \<le> i \<Longrightarrow> mset (cells (selection_outer sa i s) sa) = mset (cells s sa)"
proof (induction sa i s rule: selection_outer.induct)
  case (1 sa i s)
  show ?case
  proof (cases "i < len s sa - 1")
    case True
    have "mset (cells (selection_pass sa i s) sa) = mset (cells s sa)"
      using selection_pass_segPerm [of i s sa] True "1.prems" by (simp add: segPerm_def)
    with "1.IH" [OF True] "1.prems" True show ?thesis
      by (subst selection_outer.simps) simp
  next
    case False
    then show ?thesis
      by (subst selection_outer.simps) simp
  qed
qed

lemma selectionSort_sorts:
  "sorted (cells (selection_outer (fresh h) 0 (start h arr)) (fresh h)) \<and>
   mset (cells (selection_outer (fresh h) 0 (start h arr)) (fresh h)) = mset (cells h arr)"
  using selection_outer_sorted [of 0 "start h arr" "fresh h"]
    selection_outer_mset [of 0 "fresh h" "start h arr"]
  by (simp add: settledUpto_def)

subsection \<open>quickSort sorts\<close>

text \<open>
  The bounds of \<open>quickSortHelper\<close> are integers, and \<open>high\<close> may be \<open>low - 1\<close>. An
  empty segment leaves the array as it is.
\<close>

definition segPermI :: "int \<Rightarrow> int \<Rightarrow> int list \<Rightarrow> int list \<Rightarrow> bool" where
  "segPermI lo hi xs ys \<longleftrightarrow> (if lo \<le> hi then segPerm (nat lo) (nat hi) xs ys else ys = xs)"

lemma segPermI_refl [simp]: "segPermI lo hi xs xs"
  by (simp add: segPermI_def)

lemma segPermI_mset: "segPermI lo hi xs ys \<Longrightarrow> mset ys = mset xs"
  by (auto simp: segPermI_def segPerm_mset split: if_splits)

lemma segPermI_length: "segPermI lo hi xs ys \<Longrightarrow> length ys = length xs"
  by (auto simp: segPermI_def segPerm_length split: if_splits)

lemma segPermI_trans:
  "segPermI lo hi xs ys \<Longrightarrow> segPermI lo hi ys zs \<Longrightarrow> segPermI lo hi xs zs"
  by (auto simp: segPermI_def intro: segPerm_trans split: if_splits)

lemma segPermI_widen:
  assumes "segPermI lo hi xs ys" and "0 \<le> lo'" and "lo' \<le> lo" and "hi \<le> hi'"
  shows "segPermI lo' hi' xs ys"
proof (cases "lo \<le> hi")
  case True
  with assms have "segPerm (nat lo) (nat hi) xs ys" and "lo' \<le> hi'"
    by (simp_all add: segPermI_def)
  moreover have "nat lo' \<le> nat lo" "nat hi \<le> nat hi'"
    using assms by simp_all
  ultimately show ?thesis
    by (simp add: segPermI_def segPerm_widen)
next
  case False
  with assms show ?thesis
    by (simp add: segPermI_def)
qed

lemma segPermI_outside:
  assumes "segPermI lo hi xs ys" and "0 \<le> lo" and "int k < lo \<or> hi < int k"
  shows "ys ! k = xs ! k"
proof (cases "lo \<le> hi")
  case True
  with assms(1) have sp: "segPerm (nat lo) (nat hi) xs ys"
    by (simp add: segPermI_def)
  from assms(2,3) True have "k < nat lo \<or> nat hi < k"
    by auto
  with sp show ?thesis
    by (rule segPerm_outside)
next
  case False
  with assms(1) show ?thesis
    by (simp add: segPermI_def)
qed

lemma segPermI_inside:
  assumes "segPermI lo hi xs ys" and "0 \<le> lo" and "lo \<le> int k" and "int k \<le> hi"
  shows "\<exists>k'. lo \<le> int k' \<and> int k' \<le> hi \<and> ys ! k = xs ! k'"
proof -
  from assms have sp: "segPerm (nat lo) (nat hi) xs ys"
    by (simp add: segPermI_def)
  from assms have "nat lo \<le> k" "k \<le> nat hi"
    by simp_all
  from segPerm_inside [OF sp this] obtain k'
    where "nat lo \<le> k'" "k' \<le> nat hi" "ys ! k = xs ! k'"
    by blast
  with assms(2,3,4) show ?thesis
    by (intro exI [of _ k']) auto
qed

lemma segPermI_of_segPerm:
  "segPerm (nat lo) (nat hi) xs ys \<Longrightarrow> lo \<le> hi \<Longrightarrow> segPermI lo hi xs ys"
  by (simp add: segPermI_def)

lemma partition_loop_segPerm:
  "0 \<le> low \<Longrightarrow> low - 1 \<le> fst st \<Longrightarrow> fst st < j \<Longrightarrow> high < len (snd st) sa \<Longrightarrow>
   segPerm (nat low) (nat (high - 1)) (cells (snd st) sa)
     (cells (snd (partition_loop sa pivot high j st)) sa)"
proof (induction sa pivot high j st rule: partition_loop.induct)
  case (1 sa pivot high j i s)
  from "1.prems" have low: "0 \<le> low" and i: "low - 1 \<le> i" "i < j" and h: "high < len s sa"
    by simp_all
  let ?xs = "cells s sa"
  show ?case
  proof (cases "j < high")
    case True
    let ?s1 = "countComparison s"
    show ?thesis
    proof (cases "get ?s1 sa j < pivot")
      case less: True
      let ?s2 = "if i + 1 \<noteq> j then pushStep sa (Some (i + 1, j)) (swapElems sa (i + 1) j ?s1)
                 else ?s1"
      have a: "segPerm (nat low) (nat (high - 1)) ?xs (cells ?s2 sa)"
      proof (cases "i + 1 \<noteq> j")
        case True
        have "segPerm (nat low) (nat (high - 1)) (cells ?s1 sa)
            (cells (swapElems sa (i + 1) j ?s1) sa)"
          using low i h \<open>j < high\<close> by (intro segPerm_swapElems) simp_all
        with True show ?thesis by simp
      next
        case False
        then show ?thesis by simp
      qed
      have "segPerm (nat low) (nat (high - 1)) (cells ?s2 sa)
          (cells (snd (partition_loop sa pivot high (j + 1) (i + 1, ?s2))) sa)"
        using "1.IH"(1) [OF True refl less refl] low i h by simp
      with a have "segPerm (nat low) (nat (high - 1)) ?xs
          (cells (snd (partition_loop sa pivot high (j + 1) (i + 1, ?s2))) sa)"
        by (rule segPerm_trans)
      with True less show ?thesis
        by (subst partition_loop.simps) (simp add: Let_def)
    next
      case False
      have "segPerm (nat low) (nat (high - 1)) (cells ?s1 sa)
          (cells (snd (partition_loop sa pivot high (j + 1) (i, ?s1))) sa)"
        using "1.IH"(2) [OF True refl False] low i h by simp
      with True False show ?thesis
        by (subst partition_loop.simps) (simp add: Let_def)
    qed
  next
    case False
    then show ?thesis
      by (subst partition_loop.simps) simp
  qed
qed


text \<open>
  The loop of \<open>partition\<close> keeps the elements below the pivot at the positions up to \<open>i\<close>
  and the others between \<open>i\<close> and \<open>j\<close>.
\<close>

lemma partition_loop_split:
  "0 \<le> low \<Longrightarrow> low - 1 \<le> fst st \<Longrightarrow> fst st < j \<Longrightarrow> high < len (snd st) sa \<Longrightarrow>
   (\<forall>k. low \<le> int k \<and> int k \<le> fst st \<longrightarrow> cells (snd st) sa ! k < pivot) \<Longrightarrow>
   (\<forall>k. fst st < int k \<and> int k < j \<longrightarrow> pivot \<le> cells (snd st) sa ! k) \<Longrightarrow>
   (\<forall>k. low \<le> int k \<and> int k \<le> fst (partition_loop sa pivot high j st) \<longrightarrow>
      cells (snd (partition_loop sa pivot high j st)) sa ! k < pivot) \<and>
   (\<forall>k. fst (partition_loop sa pivot high j st) < int k \<and> int k < high \<longrightarrow>
      pivot \<le> cells (snd (partition_loop sa pivot high j st)) sa ! k)"
proof (induction sa pivot high j st rule: partition_loop.induct)
  case (1 sa pivot high j i s)
  let ?xs = "cells s sa"
  from "1.prems" have low: "0 \<le> low" and i: "low - 1 \<le> i" "i < j" and h: "high < len s sa"
    and lt: "\<forall>k. low \<le> int k \<and> int k \<le> i \<longrightarrow> ?xs ! k < pivot"
    and ge: "\<forall>k. i < int k \<and> int k < j \<longrightarrow> pivot \<le> ?xs ! k"
    by simp_all
  have j0: "0 \<le> j"
    using low i by simp
  show ?case
  proof (cases "j < high")
    case True
    let ?s1 = "countComparison s"
    have inb: "nat j < length ?xs" "nat (i + 1) < length ?xs"
      using True h i j0 by (simp_all add: len_def)
    show ?thesis
    proof (cases "get ?s1 sa j < pivot")
      case less: True
      then have xj: "?xs ! nat j < pivot"
        by (simp add: get_def)
      let ?s2 = "if i + 1 \<noteq> j then pushStep sa (Some (i + 1, j)) (swapElems sa (i + 1) j ?s1)
                 else ?s1"
      let ?zs = "cells ?s2 sa"
      have zs: "?zs = (if i + 1 \<noteq> j then ?xs[nat (i + 1) := ?xs ! nat j, nat j := ?xs ! nat (i + 1)]
                      else ?xs)"
        by simp
      have nne: "nat (i + 1) \<noteq> nat j" if "i + 1 \<noteq> j"
        using that low i by auto
      have lt': "\<forall>k. low \<le> int k \<and> int k \<le> i + 1 \<longrightarrow> ?zs ! k < pivot"
      proof (intro allI impI, elim conjE)
        fix k assume k: "low \<le> int k" "int k \<le> i + 1"
        show "?zs ! k < pivot"
        proof (cases "int k = i + 1")
          case True
          then have "k = nat (i + 1)"
            by simp
          with xj inb nne show ?thesis
            by (auto simp: zs)
        next
          case False
          with k have ki: "int k \<le> i"
            by simp
          with i low have "k \<noteq> nat (i + 1)" "k \<noteq> nat j"
            by auto
          moreover have "?xs ! k < pivot"
            using lt k ki by simp
          ultimately show ?thesis
            by (simp add: zs)
        qed
      qed
      have ge': "\<forall>k. i + 1 < int k \<and> int k < j + 1 \<longrightarrow> pivot \<le> ?zs ! k"
      proof (intro allI impI, elim conjE)
        fix k assume k: "i + 1 < int k" "int k < j + 1"
        then have ne: "i + 1 \<noteq> j"
          by simp
        show "pivot \<le> ?zs ! k"
        proof (cases "int k = j")
          case True
          then have kj: "k = nat j"
            by simp
          have "i < int (nat (i + 1)) \<and> int (nat (i + 1)) < j"
            using low i ne by simp
          with ge have "pivot \<le> ?xs ! nat (i + 1)"
            by blast
          with kj ne inb nne show ?thesis
            by (simp add: zs)
        next
          case False
          with k have kj: "int k < j"
            by simp
          with k low i have "k \<noteq> nat (i + 1)" "k \<noteq> nat j"
            by auto
          moreover have "pivot \<le> ?xs ! k"
            using ge k kj by simp
          ultimately show ?thesis
            using ne by (simp add: zs)
        qed
      qed
      have "high < len ?s2 sa"
        using h by simp
      with "1.IH"(1) [OF True refl less refl] low i lt' ge'
      have "(\<forall>k. low \<le> int k \<and> int k \<le> fst (partition_loop sa pivot high (j + 1) (i + 1, ?s2)) \<longrightarrow>
            cells (snd (partition_loop sa pivot high (j + 1) (i + 1, ?s2))) sa ! k < pivot) \<and>
         (\<forall>k. fst (partition_loop sa pivot high (j + 1) (i + 1, ?s2)) < int k \<and> int k < high \<longrightarrow>
            pivot \<le> cells (snd (partition_loop sa pivot high (j + 1) (i + 1, ?s2))) sa ! k)"
        by simp
      moreover have "partition_loop sa pivot high j (i, s) =
          partition_loop sa pivot high (j + 1) (i + 1, ?s2)"
        using True less by (subst partition_loop.simps) (simp add: Let_def)
      ultimately show ?thesis
        by simp
    next
      case False
      then have xj: "pivot \<le> ?xs ! nat j"
        by (simp add: get_def)
      have ge': "\<forall>k. i < int k \<and> int k < j + 1 \<longrightarrow> pivot \<le> cells ?s1 sa ! k"
      proof (intro allI impI, elim conjE)
        fix k assume k: "i < int k" "int k < j + 1"
        show "pivot \<le> cells ?s1 sa ! k"
        proof (cases "int k = j")
          case True
          then have "k = nat j" by simp
          with xj show ?thesis by simp
        next
          case False
          with k ge show ?thesis by simp
        qed
      qed
      from "1.IH"(2) [OF True refl False] low i h lt ge'
      have "(\<forall>k. low \<le> int k \<and> int k \<le> fst (partition_loop sa pivot high (j + 1) (i, ?s1)) \<longrightarrow>
            cells (snd (partition_loop sa pivot high (j + 1) (i, ?s1))) sa ! k < pivot) \<and>
         (\<forall>k. fst (partition_loop sa pivot high (j + 1) (i, ?s1)) < int k \<and> int k < high \<longrightarrow>
            pivot \<le> cells (snd (partition_loop sa pivot high (j + 1) (i, ?s1))) sa ! k)"
        by simp
      moreover have "partition_loop sa pivot high j (i, s) =
          partition_loop sa pivot high (j + 1) (i, ?s1)"
        using True False by (subst partition_loop.simps) (simp add: Let_def)
      ultimately show ?thesis
        by simp
    qed
  next
    case False
    have "partition_loop sa pivot high j (i, s) = (i, s)"
      using False by (subst partition_loop.simps) simp
    with lt ge False show ?thesis
      by auto
  qed
qed


text \<open>
  \<open>partition\<close> puts the pivot at the returned index, the smaller elements of the
  segment before it and the others after it.
\<close>

lemma partition_impl_spec:
  assumes low: "0 \<le> low" and lh: "low < high" and h: "high < len s sa"
  shows "segPermI low high (cells s sa) (cells (snd (partition_impl sa low high s)) sa) \<and>
    (\<forall>k. low \<le> int k \<and> int k < fst (partition_impl sa low high s) \<longrightarrow>
       cells (snd (partition_impl sa low high s)) sa ! k
         < cells (snd (partition_impl sa low high s)) sa ! nat (fst (partition_impl sa low high s))) \<and>
    (\<forall>k. fst (partition_impl sa low high s) < int k \<and> int k \<le> high \<longrightarrow>
       cells (snd (partition_impl sa low high s)) sa ! nat (fst (partition_impl sa low high s))
         \<le> cells (snd (partition_impl sa low high s)) sa ! k)"
proof -
  let ?xs = "cells s sa"
  let ?pivot = "get s sa high"
  let ?r = "partition_loop sa ?pivot high low (low - 1, s)"
  let ?ys = "cells (snd ?r) sa"
  let ?p = "fst ?r + 1"
  let ?zs = "cells (snd (partition_impl sa low high s)) sa"
  have fstp: "fst (partition_impl sa low high s) = ?p"
    by (rule fst_partition_impl)
  have bounds: "low - 1 \<le> fst ?r" "fst ?r < high"
    using partition_loop_bounds [of "low - 1" low high sa ?pivot s] lh by simp_all
  have sp: "segPerm (nat low) (nat (high - 1)) ?xs ?ys"
    using partition_loop_segPerm [of low "(low - 1, s)" low high sa ?pivot] low h by simp
  have split: "\<forall>k. low \<le> int k \<and> int k \<le> fst ?r \<longrightarrow> ?ys ! k < ?pivot"
    "\<forall>k. fst ?r < int k \<and> int k < high \<longrightarrow> ?pivot \<le> ?ys ! k"
    using partition_loop_split [of low "(low - 1, s)" low high sa ?pivot] low h by simp_all
  have ln: "length ?ys = length ?xs"
    using sp by (rule segPerm_length)
  have "nat (high - 1) < nat high"
    using low lh by simp
  then have yh: "?ys ! nat high = ?pivot"
    using segPerm_outside [OF sp, of "nat high"] by (simp add: get_def)
  have inb: "nat ?p < length ?ys" "nat high < length ?ys"
    using bounds h low ln by (simp_all add: len_def)
  have p0: "0 \<le> ?p"
    using bounds low by simp
  have zs: "?zs = (if ?p \<noteq> high then ?ys[nat ?p := ?ys ! nat high, nat high := ?ys ! nat ?p]
                  else ?ys)"
    by (simp add: snd_partition_impl Let_def)
  have nne: "nat ?p \<noteq> nat high" if "?p \<noteq> high"
    using that p0 low lh by auto
  have zp: "?zs ! nat ?p = ?pivot"
    using yh inb nne by (auto simp: zs)
  have c1: "segPermI low high ?xs ?zs"
  proof -
    have a: "segPerm (nat low) (nat high) ?xs ?ys"
      using sp by (rule segPerm_widen) (use low lh in simp_all)
    have "segPerm (nat low) (nat high) ?ys (?ys[nat ?p := ?ys ! nat high, nat high := ?ys ! nat ?p])"
      using bounds low lh inb by (intro segPerm_swap) simp_all
    with a have "segPerm (nat low) (nat high) ?xs
        (?ys[nat ?p := ?ys ! nat high, nat high := ?ys ! nat ?p])"
      by (rule segPerm_trans)
    with a have "segPerm (nat low) (nat high) ?xs ?zs"
      by (simp add: zs)
    then show ?thesis
      using lh by (intro segPermI_of_segPerm) simp_all
  qed
  have c3: "?zs ! k < ?pivot" if "low \<le> int k" "int k < ?p" for k
  proof -
    from that low lh p0 have "k \<noteq> nat ?p" "k \<noteq> nat high"
      using bounds by auto
    then have "?zs ! k = ?ys ! k"
      by (simp add: zs)
    with split(1) that show ?thesis
      by simp
  qed
  have c4: "?pivot \<le> ?zs ! k" if "?p < int k" "int k \<le> high" for k
  proof (cases "int k = high")
    case True
    then have kh: "k = nat high"
      by simp
    from that True have ne: "?p \<noteq> high"
      by simp
    have "fst ?r < int (nat ?p) \<and> int (nat ?p) < high"
      using p0 that True by simp
    with split(2) have "?pivot \<le> ?ys ! nat ?p"
      by blast
    with kh ne inb show ?thesis
      by (simp add: zs)
  next
    case False
    with that p0 have "k \<noteq> nat ?p" "k \<noteq> nat high"
      by auto
    then have "?zs ! k = ?ys ! k"
      by (simp add: zs)
    with split(2) that False show ?thesis
      by simp
  qed
  from c1 c3 c4 show ?thesis
    unfolding fstp zp by blast
qed

definition sortedSeg :: "int \<Rightarrow> int \<Rightarrow> int list \<Rightarrow> bool" where
  "sortedSeg lo hi xs \<longleftrightarrow> (\<forall>k l. lo \<le> int k \<and> k \<le> l \<and> int l \<le> hi \<longrightarrow> xs ! k \<le> xs ! l)"

lemma quickSortHelper_spec:
  "0 \<le> low \<Longrightarrow> high < len s sa \<Longrightarrow>
   segPermI low high (cells s sa) (cells (quickSortHelper sa low high s) sa) \<and>
   sortedSeg low high (cells (quickSortHelper sa low high s) sa)"
proof (induction sa low high s rule: quickSortHelper.induct)
  case (1 sa low high s)
  let ?xs = "cells s sa"
  from "1.prems" have low: "0 \<le> low" and h: "high < len s sa"
    by simp_all
  show ?case
  proof (cases "low < high")
    case True
    obtain p s1 where eq: "partition_impl sa low high s = (p, s1)"
      by (cases "partition_impl sa low high s")
    let ?zs = "cells s1 sa"
    let ?s2 = "quickSortHelper sa low (p - 1) s1"
    let ?us = "cells ?s2 sa"
    let ?s3 = "quickSortHelper sa (p + 1) high ?s2"
    let ?vs = "cells ?s3 sa"
    have pb: "low \<le> p" "p \<le> high"
      using partition_impl_bounds [of low high sa s] True eq by simp_all
    from partition_impl_spec [OF low True h] eq
    have sp1: "segPermI low high ?xs ?zs"
      and below: "\<forall>k. low \<le> int k \<and> int k < p \<longrightarrow> ?zs ! k < ?zs ! nat p"
      and above: "\<forall>k. p < int k \<and> int k \<le> high \<longrightarrow> ?zs ! nat p \<le> ?zs ! k"
      by simp_all
    have l1: "len s1 sa = len s sa"
      using segPermI_length [OF sp1] by (simp add: len_def)
    from "1.IH"(1) [OF True eq [symmetric]] low h pb l1
    have sp2: "segPermI low (p - 1) ?zs ?us" and so2: "sortedSeg low (p - 1) ?us"
      by simp_all
    have l2: "len ?s2 sa = len s sa"
      using segPermI_length [OF sp2] l1 by (simp add: len_def)
    from "1.IH"(2) [OF True eq [symmetric]] low h pb l2
    have sp3: "segPermI (p + 1) high ?us ?vs" and so3: "sortedSeg (p + 1) high ?vs"
      by simp_all
    have p0: "0 \<le> p" "0 \<le> p + 1"
      using low pb by simp_all
    have sp: "segPermI low high ?xs ?vs"
    proof -
      have "segPermI low high ?zs ?us"
        using sp2 low by (rule segPermI_widen) (use pb in simp_all)
      moreover have "segPermI low high ?us ?vs"
        using sp3 low by (rule segPermI_widen) (use pb in simp_all)
      ultimately show ?thesis
        using sp1 by (blast intro: segPermI_trans)
    qed
    have up: "?us ! nat p = ?zs ! nat p"
      using segPermI_outside [OF sp2 low, of "nat p"] p0 by simp
    have vp: "?vs ! nat p = ?zs ! nat p"
      using segPermI_outside [OF sp3 p0(2), of "nat p"] p0 up by simp
    have v_lo: "?vs ! k = ?us ! k" if "int k \<le> p" for k
      using segPermI_outside [OF sp3 p0(2), of k] that by simp
    have u_below: "?us ! k < ?zs ! nat p" if "low \<le> int k" "int k < p" for k
    proof -
      from segPermI_inside [OF sp2 low, of k] that obtain k'
        where "low \<le> int k'" "int k' \<le> p - 1" "?us ! k = ?zs ! k'"
        by auto
      with below show ?thesis
        by simp
    qed
    have v_above: "?zs ! nat p \<le> ?vs ! l" if "p < int l" "int l \<le> high" for l
    proof -
      from segPermI_inside [OF sp3 p0(2), of l] that obtain l'
        where l': "p + 1 \<le> int l'" "int l' \<le> high" "?vs ! l = ?us ! l'"
        by auto
      then have "?us ! l' = ?zs ! l'"
        using segPermI_outside [OF sp2 low, of l'] by simp
      with l' above show ?thesis
        by simp
    qed
    have so: "sortedSeg low high ?vs"
      unfolding sortedSeg_def
    proof (intro allI impI, elim conjE)
      fix k l assume kl: "low \<le> int k" "k \<le> l" "int l \<le> high"
      consider "int l < p" | "int l = p" | "p < int l"
        by linarith
      then show "?vs ! k \<le> ?vs ! l"
      proof cases
        case 1
        with kl have "?us ! k \<le> ?us ! l"
          using so2 unfolding sortedSeg_def by simp
        with 1 kl show ?thesis
          by (simp add: v_lo)
      next
        case 2
        then have l: "l = nat p"
          by simp
        show ?thesis
        proof (cases "k = l")
          case True
          then show ?thesis by simp
        next
          case False
          with kl 2 have "int k < p"
            by simp
          with kl u_below [of k] v_lo [of k] vp l show ?thesis
            by simp
        qed
      next
        case 3
        consider "int k < p" | "int k = p" | "p < int k"
          by linarith
        then show ?thesis
        proof cases
          case 1
          with kl u_below [of k] v_lo [of k] v_above [OF 3 kl(3)] show ?thesis
            by simp
        next
          case 2
          then have "k = nat p" by simp
          with vp v_above [OF 3 kl(3)] show ?thesis
            by simp
        next
          case k3: 3
          with kl so3 show ?thesis
            unfolding sortedSeg_def by simp
        qed
      qed
    qed
    have "quickSortHelper sa low high s = ?s3"
      using True eq by (subst quickSortHelper.simps) simp
    with sp so show ?thesis
      by simp
  next
    case False
    have "quickSortHelper sa low high s = s"
      using False by (subst quickSortHelper.simps) simp
    moreover have "sortedSeg low high ?xs"
      unfolding sortedSeg_def
    proof (intro allI impI, elim conjE)
      fix k l assume "low \<le> int k" "k \<le> l" "int l \<le> high"
      with False have "k = l"
        by simp
      then show "?xs ! k \<le> ?xs ! l"
        by simp
    qed
    ultimately show ?thesis
      by simp
  qed
qed

lemma quickSort_sorts:
  "sorted (cells (quickSortHelper (fresh h) 0 (len h arr - 1) (start h arr)) (fresh h)) \<and>
   mset (cells (quickSortHelper (fresh h) 0 (len h arr - 1) (start h arr)) (fresh h))
     = mset (cells h arr)"
proof -
  let ?s = "quickSortHelper (fresh h) 0 (len h arr - 1) (start h arr)"
  from quickSortHelper_spec [of 0 "len h arr - 1" "start h arr" "fresh h"]
  have sp: "segPermI 0 (len h arr - 1) (cells h arr) (cells ?s (fresh h))"
    and so: "sortedSeg 0 (len h arr - 1) (cells ?s (fresh h))"
    by simp_all
  have ln: "length (cells ?s (fresh h)) = length (cells h arr)"
    using sp by (rule segPermI_length)
  have "sorted (cells ?s (fresh h))"
    using so ln unfolding sortedSeg_def sorted_iff_nth_mono by (simp add: len_def)
  with segPermI_mset [OF sp] show ?thesis
    by simp
qed

subsection \<open>insertionSort sorts\<close>

text \<open>
  While the key travels left the array holds one element twice. With the key written
  into the free position \<open>m\<close>, every pair is in order except the pairs that end at \<open>m\<close>,
  and a shift is a swap of the key with its left neighbour.
\<close>

definition gapAt :: "nat \<Rightarrow> nat \<Rightarrow> int list \<Rightarrow> bool" where
  "gapAt m i xs \<longleftrightarrow> (\<forall>k l. k \<le> l \<and> l \<le> i \<and> (l = m \<longrightarrow> k = l) \<longrightarrow> xs ! k \<le> xs ! l)"

lemma gapAt_step:
  assumes g: "gapAt (Suc n) i xs" and ni: "Suc n \<le> i" and il: "i < length xs"
    and lt: "xs ! Suc n < xs ! n"
  shows "gapAt n i (xs[n := xs ! Suc n, Suc n := xs ! n])"
  unfolding gapAt_def
proof (intro allI impI, elim conjE)
  let ?ys = "xs[n := xs ! Suc n, Suc n := xs ! n]"
  fix k l assume kl: "k \<le> l" "l \<le> i" "l = n \<longrightarrow> k = l"
  have inb: "n < length xs" "Suc n < length xs"
    using ni il by simp_all
  have val: "?ys ! q = (if q = Suc n then xs ! n else if q = n then xs ! Suc n else xs ! q)" for q
    using inb by (simp add: nth_list_update)
  have ord: "xs ! a \<le> xs ! b" if "a \<le> b" "b \<le> i" "b \<noteq> Suc n" for a b
    using g [unfolded gapAt_def, rule_format, of a b] that by simp
  consider "l = n" | "l = Suc n" | "l < n" | "Suc n < l"
    by linarith
  then show "?ys ! k \<le> ?ys ! l"
  proof cases
    case 1
    with kl show ?thesis by simp
  next
    case 2
    consider "k = Suc n" | "k = n" | "k < n"
      using kl 2 by linarith
    then show ?thesis
    proof cases
      case 1
      with 2 show ?thesis by simp
    next
      case 2
      with \<open>l = Suc n\<close> lt show ?thesis
        by (simp add: val)
    next
      case 3
      with ord [of k n] ni \<open>l = Suc n\<close> show ?thesis
        by (simp add: val)
    qed
  next
    case 3
    with kl ord [of k l] show ?thesis
      by (simp add: val)
  next
    case 4
    consider "k = Suc n" | "k = n" | "k \<noteq> Suc n \<and> k \<noteq> n"
      by blast
    then show ?thesis
    proof cases
      case 1
      with 4 kl ord [of n l] show ?thesis
        by (simp add: val)
    next
      case 2
      with 4 kl ord [of "Suc n" l] show ?thesis
        by (simp add: val)
    next
      case 3
      with 4 kl ord [of k l] show ?thesis
        by (simp add: val)
    qed
  qed
qed

lemma gapAt_done:
  assumes g: "gapAt m i xs" and stop: "m = 0 \<or> xs ! (m - 1) \<le> xs ! m"
    and kl: "k \<le> l" "l \<le> i"
  shows "xs ! k \<le> xs ! l"
proof (cases "l = m \<and> k \<noteq> l")
  case True
  with kl stop have m: "0 < m" "xs ! (m - 1) \<le> xs ! m" "k \<le> m - 1"
    by auto
  have "m - 1 \<le> i" "m - 1 \<noteq> m"
    using m(1) True kl by linarith+
  with m(3) have "xs ! k \<le> xs ! (m - 1)"
    by (intro g [unfolded gapAt_def, rule_format, of k "m - 1"]) simp
  with m show ?thesis
    using True by simp
next
  case False
  with g [unfolded gapAt_def, rule_format, of k l] kl show ?thesis
    by blast
qed

lemma shift_is_swap:
  assumes "Suc n < length b"
  shows "(b[Suc n := b ! n])[n := key] =
     (b[Suc n := key])[n := b[Suc n := key] ! Suc n, Suc n := b[Suc n := key] ! n]"
  using assms by (simp add: list_update_swap [of n "Suc n"])


lemma insertion_shift_virtual:
  "- 1 \<le> fst st \<Longrightarrow> fst st + 1 \<le> int i \<Longrightarrow> i < length (cells (snd st) sa) \<Longrightarrow>
   segPerm 0 i ((cells (snd st) sa)[nat (fst st + 1) := key])
     ((cells (snd (insertion_shift sa key st)) sa)
        [nat (fst (insertion_shift sa key st) + 1) := key]) \<and>
   (gapAt (nat (fst st + 1)) i ((cells (snd st) sa)[nat (fst st + 1) := key]) \<longrightarrow>
    (\<forall>k l. k \<le> l \<and> l \<le> i \<longrightarrow>
       (cells (snd (insertion_shift sa key st)) sa)
          [nat (fst (insertion_shift sa key st) + 1) := key] ! k
       \<le> (cells (snd (insertion_shift sa key st)) sa)
          [nat (fst (insertion_shift sa key st) + 1) := key] ! l))"
proof (induction sa key st rule: insertion_shift.induct)
  case (1 sa key j s)
  let ?b = "cells s sa"
  from "1.prems" have j: "- 1 \<le> j" and ji: "j + 1 \<le> int i" and il: "i < length ?b"
    by simp_all
  let ?V = "?b[nat (j + 1) := key]"
  show ?case
  proof (cases "j \<ge> 0")
    case True
    let ?n = "nat j"
    have nj: "nat (j + 1) = Suc ?n"
      using True by simp
    have ni: "Suc ?n \<le> i"
      using ji True by simp
    have inb: "Suc ?n < length ?b"
      using ni il by simp
    let ?s1 = "countComparison s"
    show ?thesis
    proof (cases "get ?s1 sa j > key")
      case gt: True
      then have bn: "key < ?b ! ?n"
        by (simp add: get_def)
      let ?s2 = "pushStep sa (Some (j, j + 1)) (put sa (j + 1) (get ?s1 sa j) ?s1)"
      let ?r = "insertion_shift sa key (j - 1, ?s2)"
      let ?f = "(cells (snd ?r) sa)[nat (fst ?r + 1) := key]"
      let ?W = "?V[?n := ?V ! Suc ?n, Suc ?n := ?V ! ?n]"
      have b2: "cells ?s2 sa = ?b[Suc ?n := ?b ! ?n]"
        by (simp add: nj get_def)
      have W: "(cells ?s2 sa)[?n := key] = ?W"
        unfolding b2 nj using inb by (rule shift_is_swap)
      from "1.IH" [OF True refl gt] j ji il True
      have ih: "segPerm 0 i ((cells ?s2 sa)[?n := key]) ?f"
        "gapAt ?n i ((cells ?s2 sa)[?n := key]) \<longrightarrow> (\<forall>k l. k \<le> l \<and> l \<le> i \<longrightarrow> ?f ! k \<le> ?f ! l)"
        by (simp_all add: b2)
      have "segPerm 0 i ?V ?W"
        using ni il by (intro segPerm_swap) simp_all
      with ih(1) have c1: "segPerm 0 i ?V ?f"
        unfolding W by (blast intro: segPerm_trans)
      have c2: "\<forall>k l. k \<le> l \<and> l \<le> i \<longrightarrow> ?f ! k \<le> ?f ! l" if g: "gapAt (Suc ?n) i ?V"
      proof -
        have "?V ! Suc ?n < ?V ! ?n"
          using inb bn by (simp add: nj)
        with g ni il have "gapAt ?n i ?W"
          by (intro gapAt_step) simp_all
        with ih(2) show ?thesis
          unfolding W by simp
      qed
      have "insertion_shift sa key (j, s) = ?r"
        using True gt by (subst insertion_shift.simps) (simp add: Let_def)
      with c1 c2 show ?thesis
        by (simp add: nj)
    next
      case False
      then have bn: "?b ! ?n \<le> key"
        by (simp add: get_def)
      have eq: "insertion_shift sa key (j, s) = (j, ?s1)"
        using True False by (subst insertion_shift.simps) (simp add: Let_def)
      have "?V ! k \<le> ?V ! l" if g: "gapAt (Suc ?n) i ?V" and kl: "k \<le> l" "l \<le> i" for k l
      proof -
        have "?V ! (Suc ?n - 1) \<le> ?V ! Suc ?n"
          using inb bn by (simp add: nj)
        then show ?thesis
          using g kl by (intro gapAt_done [of "Suc ?n" i ?V]) simp_all
      qed
      then show ?thesis
        by (simp add: eq nj)
    qed
  next
    case False
    with j have j1: "j = - 1"
      by simp
    have eq: "insertion_shift sa key (- 1, s) = (- 1, s)"
      by (subst insertion_shift.simps) simp
    have "?b[0 := key] ! k \<le> ?b[0 := key] ! l"
      if g: "gapAt 0 i (?b[0 := key])" and kl: "k \<le> l" "l \<le> i" for k l
      using g kl by (intro gapAt_done [of 0 i "?b[0 := key]"]) simp_all
    then show ?thesis
      by (simp add: j1 eq)
  qed
qed

lemma cells_insertion_pass:
  "cells (insertion_pass sa i s) sa =
     (cells (snd (insertion_shift sa (get s sa i) (i - 1, s))) sa)
       [nat (fst (insertion_shift sa (get s sa i) (i - 1, s)) + 1) := get s sa i]"
  by (simp add: insertion_pass_def Let_def case_prod_beta)

lemma insertion_pass_spec:
  assumes i: "0 \<le> i" "i < len s sa"
  shows "segPerm 0 (nat i) (cells s sa) (cells (insertion_pass sa i s) sa) \<and>
    (sortedSeg 0 (i - 1) (cells s sa) \<longrightarrow> sortedSeg 0 i (cells (insertion_pass sa i s) sa))"
proof -
  let ?xs = "cells s sa"
  let ?ys = "cells (insertion_pass sa i s) sa"
  have il: "nat i < length ?xs"
    using i by (simp add: len_def)
  have v0: "?xs[nat (i - 1 + 1) := get s sa i] = ?xs"
    by (simp add: get_def)
  from insertion_shift_virtual [of "(i - 1, s)" "nat i" sa "get s sa i"] i il
  have sp: "segPerm 0 (nat i) ?xs ?ys"
    and so: "gapAt (nat i) (nat i) ?xs \<longrightarrow> (\<forall>k l. k \<le> l \<and> l \<le> nat i \<longrightarrow> ?ys ! k \<le> ?ys ! l)"
    unfolding cells_insertion_pass by (simp_all add: v0 get_def)
  have "sortedSeg 0 i ?ys" if pre: "sortedSeg 0 (i - 1) ?xs"
  proof -
    have "gapAt (nat i) (nat i) ?xs"
      unfolding gapAt_def
    proof (intro allI impI, elim conjE)
      fix k l assume kl: "k \<le> l" "l \<le> nat i" "l = nat i \<longrightarrow> k = l"
      show "?xs ! k \<le> ?xs ! l"
      proof (cases "l = nat i")
        case True
        with kl show ?thesis by simp
      next
        case False
        with kl i have "int l \<le> i - 1"
          by simp
        with pre kl show ?thesis
          unfolding sortedSeg_def by simp
      qed
    qed
    with so have "\<forall>k l. k \<le> l \<and> l \<le> nat i \<longrightarrow> ?ys ! k \<le> ?ys ! l"
      by simp
    then show ?thesis
      using i unfolding sortedSeg_def by (auto simp: le_nat_iff)
  qed
  with sp show ?thesis
    by simp
qed

lemma insertion_outer_sorted:
  "0 \<le> i \<Longrightarrow> sortedSeg 0 (i - 1) (cells s sa) \<Longrightarrow>
   sorted (cells (insertion_outer sa i s) sa)"
proof (induction sa i s rule: insertion_outer.induct)
  case (1 sa i s)
  show ?case
  proof (cases "i < len s sa")
    case True
    from insertion_pass_spec [of i s sa] "1.prems" True
    have "sortedSeg 0 (i + 1 - 1) (cells (insertion_pass sa i s) sa)"
      by simp
    with "1.IH" [OF True] "1.prems" True show ?thesis
      by (subst insertion_outer.simps) simp
  next
    case False
    have "sorted (cells s sa)"
      using "1.prems" False unfolding sortedSeg_def sorted_iff_nth_mono
      by (simp add: len_def)
    with False show ?thesis
      by (subst insertion_outer.simps) simp
  qed
qed

lemma insertion_outer_mset:
  "0 \<le> i \<Longrightarrow> mset (cells (insertion_outer sa i s) sa) = mset (cells s sa)"
proof (induction sa i s rule: insertion_outer.induct)
  case (1 sa i s)
  show ?case
  proof (cases "i < len s sa")
    case True
    have "mset (cells (insertion_pass sa i s) sa) = mset (cells s sa)"
      using insertion_pass_spec [of i s sa] True "1.prems" by (simp add: segPerm_def)
    with "1.IH" [OF True] "1.prems" True show ?thesis
      by (subst insertion_outer.simps) simp
  next
    case False
    then show ?thesis
      by (subst insertion_outer.simps) simp
  qed
qed

lemma insertionSort_sorts:
  "sorted (cells (insertion_outer (fresh h) 1 (start h arr)) (fresh h)) \<and>
   mset (cells (insertion_outer (fresh h) 1 (start h arr)) (fresh h)) = mset (cells h arr)"
proof -
  have "sortedSeg 0 (1 - 1) (cells (start h arr) (fresh h))"
    unfolding sortedSeg_def by auto
  then show ?thesis
    using insertion_outer_sorted [of 1 "start h arr" "fresh h"]
      insertion_outer_mset [of 1 "fresh h" "start h arr"] by simp
qed

subsection \<open>The result bundle\<close>

text \<open>What C1 asks of a store and a result object, for the input \<open>xs\<close>.\<close>

definition sortedOutcome :: "int list \<Rightarrow> heap \<Rightarrow> sortResult \<Rightarrow> bool" where
  "sortedOutcome xs h' r \<longleftrightarrow>
     mset (cells h' (sortedArray r)) = mset xs \<and> sorted (cells h' (sortedArray r)) \<and>
     steps r \<noteq> [] \<and> cells h' (array (hd (steps r))) = xs \<and>
     cells h' (array (last (steps r))) = cells h' (sortedArray r)"

lemma produces_sortedOutcome:
  assumes "produces h a s hr" and "sorted (cells s (fresh h))"
    and "mset (cells s (fresh h)) = mset (cells h a)"
  shows "sortedOutcome (cells h a) (fst hr) (snd hr)"
proof -
  from assms(1) have inv: "traceInv (fresh h) (cells0 h a) s" and hp: "fst hr = heapOf s"
    and st: "steps (snd hr) = trace s" and sa: "sortedArray (snd hr) = fresh h"
    by (simp_all add: produces_def)
  from inv have "trace s \<noteq> []" "cells s (array (last (trace s))) = cells s (fresh h)"
    "cells s (array (hd (trace s))) = cells h a"
    by (simp_all add: traceInv_def cells0_def)
  with assms(2,3) show ?thesis
    by (simp add: sortedOutcome_def hp st sa)
qed

lemma sortedOutcome_executors:
  "sortedOutcome (cells h a) (fst (bubbleSort clk h a)) (snd (bubbleSort clk h a))"
  "sortedOutcome (cells h a) (fst (quickSort clk h a)) (snd (quickSort clk h a))"
  "sortedOutcome (cells h a) (fst (selectionSort clk h a)) (snd (selectionSort clk h a))"
  "sortedOutcome (cells h a) (fst (insertionSort clk h a)) (snd (insertionSort clk h a))"
  using produces_sortedOutcome [OF produces_bubbleSort [of h a clk]] bubbleSort_sorts [of h a]
    produces_sortedOutcome [OF produces_quickSort [of h a clk]] quickSort_sorts [of h a]
    produces_sortedOutcome [OF produces_selectionSort [of h a clk]] selectionSort_sorts [of h a]
    produces_sortedOutcome [OF produces_insertionSort [of h a clk]] insertionSort_sorts [of h a]
  by simp_all

text \<open>
  C1. For a valid input and each of the four algorithms (the identifier in any case),
  \<open>sort\<close> returns a result whose \<open>sortedArray\<close> is a permutation of the input and
  non-decreasing, whose first step is a snapshot equal to the input and whose last step is
  a snapshot equal to \<open>sortedArray\<close>.
\<close>

theorem sort_returns_sorted_permutation:
  assumes "validInput e h a"
    and "toLowerCase algorithm \<in> {''bubble'', ''quick'', ''selection'', ''insertion''}"
  shows "\<exists>r. returned (sort_impl e clk h (ArrayRef a) algorithm) = Inr r \<and>
           mset (cells (heapAfter (sort_impl e clk h (ArrayRef a) algorithm)) (sortedArray r))
             = mset (cells h a) \<and>
           sorted (cells (heapAfter (sort_impl e clk h (ArrayRef a) algorithm)) (sortedArray r)) \<and>
           steps r \<noteq> [] \<and>
           cells (heapAfter (sort_impl e clk h (ArrayRef a) algorithm)) (array (hd (steps r)))
             = cells h a \<and>
           cells (heapAfter (sort_impl e clk h (ArrayRef a) algorithm)) (array (last (steps r)))
             = cells (heapAfter (sort_impl e clk h (ArrayRef a) algorithm)) (sortedArray r)"
proof (cases "sorted (cells h a)")
  case True
  with assms(1) have "sort_impl e clk h (ArrayRef a) algorithm = fastPath h a algorithm"
    by (rule sort_impl_fastPath)
  with True show ?thesis
    by (simp add: fastPath_def)
next
  case False
  let ?log = "[LogInfo ''Starting sort operation'']"
  from assms(2) consider
      "sort_impl e clk h (ArrayRef a) algorithm = completed ?log (bubbleSort clk h a)"
    | "sort_impl e clk h (ArrayRef a) algorithm = completed ?log (quickSort clk h a)"
    | "sort_impl e clk h (ArrayRef a) algorithm = completed ?log (selectionSort clk h a)"
    | "sort_impl e clk h (ArrayRef a) algorithm = completed ?log (insertionSort clk h a)"
    by (auto simp: sort_impl_executor [OF assms(1) False] Let_def)
  then show ?thesis
  proof cases
    case 1
    with sortedOutcome_executors(1) [of h a clk] show ?thesis
      by (simp add: completed_def sortedOutcome_def)
  next
    case 2
    with sortedOutcome_executors(2) [of h a clk] show ?thesis
      by (simp add: completed_def sortedOutcome_def)
  next
    case 3
    with sortedOutcome_executors(3) [of h a clk] show ?thesis
      by (simp add: completed_def sortedOutcome_def)
  next
    case 4
    with sortedOutcome_executors(4) [of h a clk] show ?thesis
      by (simp add: completed_def sortedOutcome_def)
  qed
qed

theorem sort_returns_sorted_permutation_witness:
  "\<exists>r. returned (sort_impl defaultEnv clock0 (heapWith [5, 3, 1, 4, 2]) (ArrayRef 0) ''Quick'')
         = Inr r \<and>
       mset (cells (heapAfter (sort_impl defaultEnv clock0 (heapWith [5, 3, 1, 4, 2]) (ArrayRef 0)
         ''Quick'')) (sortedArray r)) = mset [5, 3, 1, 4, 2] \<and>
       sorted (cells (heapAfter (sort_impl defaultEnv clock0 (heapWith [5, 3, 1, 4, 2]) (ArrayRef 0)
         ''Quick'')) (sortedArray r))"
proof -
  have "toLowerCase ''Quick'' = ''quick''"
    by code_simp
  with sort_returns_sorted_permutation [of defaultEnv "heapWith [5, 3, 1, 4, 2]" 0 "''Quick''" clock0]
  show ?thesis
    by (auto simp: validInput_heapWith)
qed

subsection \<open>One pass of insertion sort, step by step\<close>

text \<open>
  The number of shifts of the pass for position \<open>i\<close>: the left neighbours of the key,
  read leftwards from \<open>i - 1\<close>, as long as they exceed the key. The neighbours examined
  are these and, unless the left end was reached, the one that stopped the loop.
\<close>

definition shiftCount :: "int list \<Rightarrow> nat \<Rightarrow> nat" where
  "shiftCount xs i = length (takeWhile (\<lambda>x. xs ! i < x) (rev (take i xs)))"

definition examined :: "int list \<Rightarrow> nat \<Rightarrow> nat" where
  "examined xs i = shiftCount xs i + (if shiftCount xs i < i then 1 else 0)"

text \<open>
  The steps of \<open>d\<close> shifts, the first snapshot at address \<open>p\<close>, after \<open>c\<close> comparisons:
  shift number \<open>t\<close> moves the value at \<open>i - 1 - t\<close> to \<open>i - t\<close>.
\<close>

definition shiftSteps :: "addr \<Rightarrow> nat \<Rightarrow> nat \<Rightarrow> nat \<Rightarrow> step list" where
  "shiftSteps p c i d =
     map (\<lambda>t. \<lparr>array = p + t, swapIndices = Some (int i - 1 - int t, int i - int t),
               comparisonCount = c + t + 1\<rparr>) [0..<d]"

lemma shiftSteps_Suc:
  "shiftSteps p c (Suc m) (Suc d) =
     \<lparr>array = p, swapIndices = Some (int m, int m + 1), comparisonCount = Suc c\<rparr>
       # shiftSteps (Suc p) (Suc c) m d"
  by (simp add: shiftSteps_def map_upt_Suc del: upt_Suc)

lemma insertion_shift_trace:
  "m < length (cells s sa) \<Longrightarrow>
   fst (insertion_shift sa key (int m - 1, s))
     = int m - 1 - int (length (takeWhile (\<lambda>x. key < x) (rev (take m (cells s sa))))) \<and>
   trace (snd (insertion_shift sa key (int m - 1, s)))
     = trace s @ shiftSteps (fresh s) (count s) m
         (length (takeWhile (\<lambda>x. key < x) (rev (take m (cells s sa))))) \<and>
   count (snd (insertion_shift sa key (int m - 1, s)))
     = count s + length (takeWhile (\<lambda>x. key < x) (rev (take m (cells s sa))))
       + (if length (takeWhile (\<lambda>x. key < x) (rev (take m (cells s sa)))) < m then 1 else 0) \<and>
   fresh (snd (insertion_shift sa key (int m - 1, s)))
     = fresh s + length (takeWhile (\<lambda>x. key < x) (rev (take m (cells s sa))))"
proof (induction m arbitrary: s)
  case 0
  have "insertion_shift sa key (- 1, s) = (- 1, s)"
    by (subst insertion_shift.simps) simp
  then show ?case
    by (simp add: shiftSteps_def)
next
  case (Suc m)
  let ?b = "cells s sa"
  let ?s1 = "countComparison s"
  have tk: "rev (take (Suc m) ?b) = ?b ! m # rev (take m ?b)"
    using Suc.prems by (simp add: take_Suc_conv_app_nth)
  show ?case
  proof (cases "key < ?b ! m")
    case True
    let ?s2 = "pushStep sa (Some (int m, int m + 1)) (put sa (int m + 1) (get ?s1 sa (int m)) ?s1)"
    have eq: "insertion_shift sa key (int (Suc m) - 1, s) = insertion_shift sa key (int m - 1, ?s2)"
      using True by (subst insertion_shift.simps) (simp add: Let_def get_def)
    have b2: "cells ?s2 sa = ?b[Suc m := ?b ! m]"
      by (simp add: get_def nat_add_distrib)
    then have tk2: "take m (cells ?s2 sa) = take m ?b"
      by simp
    have "m < length (cells ?s2 sa)"
      using Suc.prems by (simp add: b2)
    from Suc.IH [OF this] show ?thesis
      unfolding eq tk2 tk using True
      by (simp add: shiftSteps_Suc)
  next
    case False
    have eq: "insertion_shift sa key (int (Suc m) - 1, s) = (int m, ?s1)"
      using False by (subst insertion_shift.simps) (simp add: Let_def get_def)
    show ?thesis
      unfolding eq tk using False by (simp add: shiftSteps_def)
  qed
qed

lemma insertion_pass_trace:
  assumes "i < length (cells s sa)"
  shows "count (insertion_pass sa (int i) s) = count s + examined (cells s sa) i \<and>
    trace (insertion_pass sa (int i) s) =
      trace s @ shiftSteps (fresh s) (count s) i (shiftCount (cells s sa) i) @
      (if shiftCount (cells s sa) i = 0 then []
       else [\<lparr>array = fresh s + shiftCount (cells s sa) i,
              swapIndices = Some (int i - int (shiftCount (cells s sa) i), int i),
              comparisonCount = count s + examined (cells s sa) i\<rparr>])"
proof -
  let ?key = "get s sa (int i)"
  let ?r = "insertion_shift sa ?key (int i - 1, s)"
  let ?d = "shiftCount (cells s sa) i"
  have d: "length (takeWhile (\<lambda>x. ?key < x) (rev (take i (cells s sa)))) = ?d"
    by (simp add: shiftCount_def get_def)
  from insertion_shift_trace [OF assms, of ?key]
  have r: "fst ?r = int i - 1 - int ?d"
    "trace (snd ?r) = trace s @ shiftSteps (fresh s) (count s) i ?d"
    "count (snd ?r) = count s + examined (cells s sa) i"
    "fresh (snd ?r) = fresh s + ?d"
    unfolding d by (simp_all add: examined_def)
  have "fst ?r + 1 \<noteq> int i \<longleftrightarrow> ?d \<noteq> 0"
    using r(1) by simp
  then show ?thesis
    using r by (simp add: insertion_pass_def Let_def case_prod_beta)
qed

lemma insertion_outer_fold:
  "insertion_outer sa (int i) s =
     foldl (\<lambda>s i. insertion_pass sa (int i) s) s [i..<length (cells s sa)]"
proof (induction "length (cells s sa) - i" arbitrary: i s)
  case 0
  then show ?case
    by (subst insertion_outer.simps) (simp add: len_def)
next
  case (Suc n)
  then have lt: "i < length (cells s sa)"
    by simp
  let ?s1 = "insertion_pass sa (int i) s"
  have ln: "length (cells ?s1 sa) = length (cells s sa)"
    using len_insertion_pass [of sa "int i" s] by (simp add: len_def)
  with Suc have "n = length (cells ?s1 sa) - Suc i"
    by simp
  from Suc(1) [OF this] have "insertion_outer sa (int (Suc i)) ?s1 =
      foldl (\<lambda>s i. insertion_pass sa (int i) s) ?s1 [Suc i..<length (cells s sa)]"
    by (simp add: ln)
  moreover have "insertion_outer sa (int i) s = insertion_outer sa (int (Suc i)) ?s1"
    using lt by (subst insertion_outer.simps) (simp add: len_def add.commute)
  ultimately show ?case
    using lt by (simp add: upt_conv_Cons)
qed


lemma start_trace [simp]:
  "trace (start h arr) = [\<lparr>array = Suc (fresh h), swapIndices = None, comparisonCount = 0\<rparr>]"
  "fresh (start h arr) = Suc (Suc (fresh h))"
  by (simp_all add: start_def)

text \<open>
  C8. On a valid input that is not already sorted, \<open>sort\<close> with the identifier
  \<open>insertion\<close> returns what \<open>insertionSort\<close> returns, and the trace and the counter of
  \<open>insertionSort\<close> are those of the passes for the positions \<open>1, \<dots>, n - 1\<close>, run in this
  order after the initial snapshot. The pass for position \<open>i\<close>, started with \<open>c\<close>
  comparisons counted, adds one comparison per left neighbour examined, records one step
  \<open>[j, j + 1]\<close> for each shift (\<open>j = i - 1, i - 2, \<dots>\<close>), and then, when the key rests at
  \<open>i - d \<noteq> i\<close>, exactly one step \<open>[i - d, i]\<close>; when no shift was made (\<open>d = 0\<close>) it
  records nothing.
\<close>

theorem insertion_sort_records:
  "(validInput e h a \<and> \<not> sorted (cells h a) \<and> toLowerCase algorithm = ''insertion'' \<longrightarrow>
      returned (sort_impl e clk h (ArrayRef a) algorithm) = Inr (snd (insertionSort clk h a))) \<and>
   steps (snd (insertionSort clk h a)) =
     trace (foldl (\<lambda>s i. insertion_pass (fresh h) (int i) s) (start h a)
              [1..<length (cells h a)]) \<and>
   totalComparisons (snd (insertionSort clk h a)) =
     count (foldl (\<lambda>s i. insertion_pass (fresh h) (int i) s) (start h a)
              [1..<length (cells h a)]) \<and>
   (\<forall>s sa i. i < length (cells s sa) \<longrightarrow>
      count (insertion_pass sa (int i) s) = count s + examined (cells s sa) i \<and>
      trace (insertion_pass sa (int i) s) =
        trace s @ shiftSteps (fresh s) (count s) i (shiftCount (cells s sa) i) @
        (if shiftCount (cells s sa) i = 0 then []
         else [\<lparr>array = fresh s + shiftCount (cells s sa) i,
                swapIndices = Some (int i - int (shiftCount (cells s sa) i), int i),
                comparisonCount = count s + examined (cells s sa) i\<rparr>]))"
proof -
  have "validInput e h a \<and> \<not> sorted (cells h a) \<and> toLowerCase algorithm = ''insertion'' \<longrightarrow>
      returned (sort_impl e clk h (ArrayRef a) algorithm) = Inr (snd (insertionSort clk h a))"
    by (simp add: sort_impl_executor completed_def Let_def)
  moreover have "insertion_outer (fresh h) 1 (start h a) =
      foldl (\<lambda>s i. insertion_pass (fresh h) (int i) s) (start h a) [1..<length (cells h a)]"
    using insertion_outer_fold [of "fresh h" 1 "start h a"] by simp
  ultimately show ?thesis
    using insertion_pass_trace by (simp add: insertionSort_eq)
qed

theorem insertion_sort_records_witness:
  "returned (sort_impl defaultEnv clock0 (heapWith [3, 1, 2]) (ArrayRef 0) ''insertion'')
     = Inr (snd (insertionSort clock0 (heapWith [3, 1, 2]) 0)) \<and>
   trace (insertion_pass 1 1 (start (heapWith [3, 1, 2]) 0)) =
     [\<lparr>array = 2, swapIndices = None, comparisonCount = 0\<rparr>,
      \<lparr>array = 3, swapIndices = Some (0, 1), comparisonCount = 1\<rparr>,
      \<lparr>array = 4, swapIndices = Some (0, 1), comparisonCount = 1\<rparr>] \<and>
   count (insertion_pass 1 1 (start (heapWith [3, 1, 2]) 0)) = 1"
proof -
  have v: "validInput defaultEnv (heapWith [3, 1, 2]) 0 \<and> \<not> sorted (cells (heapWith [3, 1, 2]) 0) \<and>
      toLowerCase ''insertion'' = ''insertion''"
    by (simp add: validInput_heapWith)
  have c: "cells (start (heapWith [3, 1, 2]) 0) 1 = [3, 1, 2]"
    using start_simps(1) [of "heapWith [3, 1, 2]" 0] by simp
  have d: "shiftCount [3, 1, 2] 1 = 1" "examined [3, 1, 2] 1 = 1"
    by (simp_all add: shiftCount_def examined_def)
  have st: "shiftSteps p c 1 1 = [\<lparr>array = p, swapIndices = Some (0, 1), comparisonCount = Suc c\<rparr>]"
    for p c
    by (simp add: shiftSteps_def)
  have len: "1 < length [3, 1, 2 :: int]"
    by simp
  from insertion_sort_records [of defaultEnv "heapWith [3, 1, 2]" 0 "''insertion''" clock0]
  have ret: "returned (sort_impl defaultEnv clock0 (heapWith [3, 1, 2]) (ArrayRef 0) ''insertion'')
        = Inr (snd (insertionSort clock0 (heapWith [3, 1, 2]) 0))"
    and pass: "\<And>s sa i. i < length (cells s sa) \<Longrightarrow>
      count (insertion_pass sa (int i) s) = count s + examined (cells s sa) i \<and>
      trace (insertion_pass sa (int i) s) =
        trace s @ shiftSteps (fresh s) (count s) i (shiftCount (cells s sa) i) @
        (if shiftCount (cells s sa) i = 0 then []
         else [\<lparr>array = fresh s + shiftCount (cells s sa) i,
                swapIndices = Some (int i - int (shiftCount (cells s sa) i), int i),
                comparisonCount = count s + examined (cells s sa) i\<rparr>])"
    using v by blast+
  from pass [of 1 "start (heapWith [3, 1, 2]) 0" 1, unfolded c d st, OF len]
  have "trace (insertion_pass 1 1 (start (heapWith [3, 1, 2]) 0)) =
     [\<lparr>array = 2, swapIndices = None, comparisonCount = 0\<rparr>,
      \<lparr>array = 3, swapIndices = Some (0, 1), comparisonCount = 1\<rparr>,
      \<lparr>array = 4, swapIndices = Some (0, 1), comparisonCount = 1\<rparr>] \<and>
   count (insertion_pass 1 1 (start (heapWith [3, 1, 2]) 0)) = 1"
    by (simp add: eval_nat_numeral)
  with ret show ?thesis
    by simp
qed

text \<open>
  C7, as stated, fails: bubble sort makes one swap for every inversion of the input, and
  \<open>[5, 3, 1, 4, 2]\<close> has seven. Four swaps are those of the first pass alone.
\<close>

theorem bubble_example_counterexample:
  "returned (sort_impl defaultEnv clock0 (heapWith [5, 3, 1, 4, 2]) (ArrayRef 0) ''bubble'') =
     Inr \<lparr>steps = [\<lparr>array = 2, swapIndices = None, comparisonCount = 0\<rparr>,
                  \<lparr>array = 3, swapIndices = Some (0, 1), comparisonCount = 1\<rparr>,
                  \<lparr>array = 4, swapIndices = Some (1, 2), comparisonCount = 2\<rparr>,
                  \<lparr>array = 5, swapIndices = Some (2, 3), comparisonCount = 3\<rparr>,
                  \<lparr>array = 6, swapIndices = Some (3, 4), comparisonCount = 4\<rparr>,
                  \<lparr>array = 7, swapIndices = Some (0, 1), comparisonCount = 5\<rparr>,
                  \<lparr>array = 8, swapIndices = Some (2, 3), comparisonCount = 7\<rparr>,
                  \<lparr>array = 9, swapIndices = Some (1, 2), comparisonCount = 9\<rparr>],
          sortedArray = 1, executionTime = 0, algorithmType = ''bubble'',
          totalComparisons = 10\<rparr>"
  by code_simp

lemma bubble_example_run:
  "returned (sort_impl defaultEnv clock0 (heapWith [5, 3, 1, 4, 2]) (ArrayRef 0) ''bubble'') =
     Inr \<lparr>steps = [\<lparr>array = 2, swapIndices = None, comparisonCount = 0\<rparr>,
                  \<lparr>array = 3, swapIndices = Some (0, 1), comparisonCount = 1\<rparr>,
                  \<lparr>array = 4, swapIndices = Some (1, 2), comparisonCount = 2\<rparr>,
                  \<lparr>array = 5, swapIndices = Some (2, 3), comparisonCount = 3\<rparr>,
                  \<lparr>array = 6, swapIndices = Some (3, 4), comparisonCount = 4\<rparr>,
                  \<lparr>array = 7, swapIndices = Some (0, 1), comparisonCount = 5\<rparr>,
                  \<lparr>array = 8, swapIndices = Some (2, 3), comparisonCount = 7\<rparr>,
                  \<lparr>array = 9, swapIndices = Some (1, 2), comparisonCount = 9\<rparr>],
          sortedArray = 1, executionTime = 0, algorithmType = ''bubble'',
          totalComparisons = 10\<rparr>"
  by code_simp

lemma bubble_example_cells:
  "cells (heapAfter (sort_impl defaultEnv clock0 (heapWith [5, 3, 1, 4, 2]) (ArrayRef 0) ''bubble''))
     (Suc 0) = [1, 2, 3, 4, 5]"
  "cells (heapAfter (sort_impl defaultEnv clock0 (heapWith [5, 3, 1, 4, 2]) (ArrayRef 0) ''bubble'')) 3
     = [3, 5, 1, 4, 2]"
  by code_simp+

text \<open>
  C7, amended. On \<open>[5, 3, 1, 4, 2]\<close> with \<open>bubble\<close> the final array is \<open>[1, 2, 3, 4, 5]\<close>,
  \<open>totalComparisons\<close> is 10, and seven swap steps follow the initial snapshot, the first
  with \<open>swapIndices\<close> \<open>(0, 1)\<close> and snapshot \<open>[3, 5, 1, 4, 2]\<close>.
\<close>

theorem bubble_example:
  "\<exists>r. returned (sort_impl defaultEnv clock0 (heapWith [5, 3, 1, 4, 2]) (ArrayRef 0) ''bubble'')
         = Inr r \<and>
       cells (heapAfter (sort_impl defaultEnv clock0 (heapWith [5, 3, 1, 4, 2]) (ArrayRef 0)
         ''bubble'')) (sortedArray r) = [1, 2, 3, 4, 5] \<and>
       totalComparisons r = 10 \<and>
       map swapIndices (steps r) =
         [None, Some (0, 1), Some (1, 2), Some (2, 3), Some (3, 4), Some (0, 1), Some (2, 3),
          Some (1, 2)] \<and>
       length (tl (steps r)) = 7 \<and>
       cells (heapAfter (sort_impl defaultEnv clock0 (heapWith [5, 3, 1, 4, 2]) (ArrayRef 0)
         ''bubble'')) (array (steps r ! 1)) = [3, 5, 1, 4, 2]"
  by (simp add: bubble_example_run bubble_example_cells)

end
